theory Spec2Isabelle
  imports Main "HOL-Library.Stream"
begin

section \<open>PasswordDB: the passwords table\<close>

text \<open>
  The table \<open>passwords(password TEXT PRIMARY KEY, created TIMESTAMP DEFAULT
  CURRENT_TIMESTAMP)\<close> is a list of rows in insertion order. A database file either has
  no table yet (\<open>None\<close>) or holds one. The two SQL statements of the class are given
  their SQLite meaning: \<open>SELECT 1 ... WHERE password = ?\<close> finds the rows with that key,
  and \<open>INSERT\<close> on a key that is present either aborts with an integrity error or, with
  \<open>OR IGNORE\<close>, leaves the table alone.
\<close>

type_synonym timestamp = nat
type_synonym row = "string \<times> timestamp"
type_synonym table = "row list"

datatype sql_error = IntegrityError | OperationalError

datatype on_conflict = Abort | Ignore

definition init_db :: "table option \<Rightarrow> table" where
  "init_db file = (case file of None \<Rightarrow> [] | Some t \<Rightarrow> t)"

definition select_where :: "table \<Rightarrow> string \<Rightarrow> row list" where
  "select_where t password = filter (\<lambda>r. fst r = password) t"

text \<open>\<open>exists\<close> returns the answer together with the table it leaves behind.\<close>

definition exists :: "table \<Rightarrow> string \<Rightarrow> bool \<times> table" where
  "exists t password = (select_where t password \<noteq> [], t)"

definition sql_insert :: "on_conflict \<Rightarrow> timestamp \<Rightarrow> table \<Rightarrow> string \<Rightarrow> sql_error + table" where
  "sql_insert oc now t password =
     (if select_where t password \<noteq> []
      then (case oc of Abort \<Rightarrow> Inl IntegrityError | Ignore \<Rightarrow> Inr t)
      else Inr (t @ [(password, now)]))"

text \<open>
  \<open>executemany\<close> runs the statement once per parameter; \<open>clock i\<close> is the reading of
  \<open>CURRENT_TIMESTAMP\<close> when the \<open>i\<close>-th statement runs.
\<close>

fun executemany :: "on_conflict \<Rightarrow> (nat \<Rightarrow> timestamp) \<Rightarrow> table \<Rightarrow> string list \<Rightarrow> sql_error + table" where
  "executemany oc clock t [] = Inr t"
| "executemany oc clock t (p # ps) =
     (case sql_insert oc (clock 0) t p of
        Inl e \<Rightarrow> Inl e
      | Inr t' \<Rightarrow> executemany oc (\<lambda>i. clock (Suc i)) t' ps)"

definition insert_batch :: "(nat \<Rightarrow> timestamp) \<Rightarrow> table \<Rightarrow> string list \<Rightarrow> sql_error + table" where
  "insert_batch clock t passwords = executemany Ignore clock t passwords"

definition records_for :: "table \<Rightarrow> string \<Rightarrow> nat" where
  "records_for t password = length (select_where t password)"

definition primary_key :: "table \<Rightarrow> bool" where
  "primary_key t = distinct (map fst t)"

subsection \<open>Insert-or-ignore\<close>

lemma select_where_append:
  "select_where (t @ u) k = select_where t k @ select_where u k"
  by (simp add: select_where_def)

lemma select_where_nonempty_iff: "select_where t k \<noteq> [] \<longleftrightarrow> k \<in> fst ` set t"
  by (auto simp: select_where_def filter_empty_conv)

lemma executemany_Ignore_extends:
  "\<exists>new. executemany Ignore clock t ps = Inr (t @ new) \<and> fst ` set new \<subseteq> set ps"
proof (induction ps arbitrary: t clock)
  case Nil
  show ?case by simp
next
  case (Cons p ps)
  show ?case
  proof (cases "select_where t p \<noteq> []")
    case True
    from Cons.IH [of "\<lambda>i. clock (Suc i)" t] obtain new
      where "executemany Ignore (\<lambda>i. clock (Suc i)) t ps = Inr (t @ new)"
        and "fst ` set new \<subseteq> set ps" by blast
    with True show ?thesis by (auto simp: sql_insert_def)
  next
    case False
    from Cons.IH [of "\<lambda>i. clock (Suc i)" "t @ [(p, clock 0)]"] obtain new
      where n: "executemany Ignore (\<lambda>i. clock (Suc i)) (t @ [(p, clock 0)]) ps
                  = Inr ((t @ [(p, clock 0)]) @ new)"
        and s: "fst ` set new \<subseteq> set ps" by blast
    have "executemany Ignore clock t (p # ps) = Inr (t @ ((p, clock 0) # new))"
      using False n by (simp add: sql_insert_def)
    moreover have "fst ` set ((p, clock 0) # new) \<subseteq> set (p # ps)"
      using s by auto
    ultimately show ?thesis by blast
  qed
qed

lemma insert_batch_extends:
  "\<exists>new. insert_batch clock t ps = Inr (t @ new) \<and> fst ` set new \<subseteq> set ps"
  unfolding insert_batch_def by (rule executemany_Ignore_extends)

lemma executemany_Ignore_keys:
  "executemany Ignore clock t ps = Inr t' \<Longrightarrow> fst ` set t' = fst ` set t \<union> set ps"
proof (induction ps arbitrary: t clock)
  case Nil
  then show ?case by simp
next
  case (Cons p ps)
  show ?case
  proof (cases "select_where t p \<noteq> []")
    case True
    with Cons.prems have "executemany Ignore (\<lambda>i. clock (Suc i)) t ps = Inr t'"
      by (simp add: sql_insert_def)
    from Cons.IH [OF this] True show ?thesis
      by (auto simp: select_where_nonempty_iff)
  next
    case False
    with Cons.prems
    have "executemany Ignore (\<lambda>i. clock (Suc i)) (t @ [(p, clock 0)]) ps = Inr t'"
      by (simp add: sql_insert_def)
    from Cons.IH [OF this] show ?thesis by auto
  qed
qed

lemma executemany_Ignore_primary_key:
  "executemany Ignore clock t ps = Inr t' \<Longrightarrow> primary_key t \<Longrightarrow> primary_key t'"
proof (induction ps arbitrary: t clock)
  case Nil
  then show ?case by simp
next
  case (Cons p ps)
  show ?case
  proof (cases "select_where t p \<noteq> []")
    case True
    with Cons.prems have "executemany Ignore (\<lambda>i. clock (Suc i)) t ps = Inr t'"
      by (simp add: sql_insert_def)
    from Cons.IH [OF this Cons.prems(2)] show ?thesis .
  next
    case False
    with Cons.prems
    have e: "executemany Ignore (\<lambda>i. clock (Suc i)) (t @ [(p, clock 0)]) ps = Inr t'"
      by (simp add: sql_insert_def)
    have "primary_key (t @ [(p, clock 0)])"
      using False Cons.prems(2)
      by (auto simp: primary_key_def select_where_nonempty_iff)
    from Cons.IH [OF e this] show ?thesis .
  qed
qed

lemma primary_key_records_for:
  "primary_key t \<Longrightarrow> k \<in> fst ` set t \<Longrightarrow> records_for t k = 1"
proof (induction t)
  case Nil
  then show ?case by simp
next
  case (Cons r t)
  show ?case
  proof (cases "fst r = k")
    case True
    with Cons.prems(1) have "k \<notin> fst ` set t"
      by (auto simp: primary_key_def)
    then have "select_where t k = []"
      using select_where_nonempty_iff [of t k] by blast
    with True show ?thesis
      by (simp add: records_for_def select_where_def)
  next
    case False
    with Cons.prems have "primary_key t" and "k \<in> fst ` set t"
      by (auto simp: primary_key_def)
    from Cons.IH [OF this] False show ?thesis
      by (simp add: records_for_def select_where_def)
  qed
qed

lemma executemany_Ignore_present:
  "set ps \<subseteq> fst ` set t \<Longrightarrow> executemany Ignore clock t ps = Inr t"
proof (induction ps arbitrary: clock)
  case Nil
  show ?case by simp
next
  case (Cons p ps)
  then have "select_where t p \<noteq> []"
    by (simp add: select_where_nonempty_iff)
  with Cons show ?case by (simp add: sql_insert_def)
qed

text \<open>
  C7. Insert is idempotent. On a table that satisfies its primary key, a batch that
  holds the key \<open>k\<close> (once or several times) is inserted without error and leaves
  exactly one record for \<open>k\<close>; any later batch is inserted without error and still
  leaves exactly one record for \<open>k\<close>; and inserting the first batch again changes
  nothing.
\<close>

theorem insert_batch_idempotent:
  assumes "primary_key t" and "k \<in> set ps"
  shows "\<exists>t1 t2. insert_batch c1 t ps = Inr t1 \<and> records_for t1 k = 1
            \<and> insert_batch c2 t1 qs = Inr t2 \<and> records_for t2 k = 1
            \<and> insert_batch c3 t1 ps = Inr t1"
proof -
  obtain n1 where t1: "insert_batch c1 t ps = Inr (t @ n1)"
    using insert_batch_extends by blast
  obtain n2 where t2: "insert_batch c2 (t @ n1) qs = Inr ((t @ n1) @ n2)"
    using insert_batch_extends by blast
  have pk1: "primary_key (t @ n1)"
    using t1 assms(1) executemany_Ignore_primary_key insert_batch_def by metis
  have pk2: "primary_key ((t @ n1) @ n2)"
    using t2 pk1 executemany_Ignore_primary_key insert_batch_def by metis
  have k1: "fst ` set (t @ n1) = fst ` set t \<union> set ps"
    using t1 executemany_Ignore_keys insert_batch_def by metis
  have k2: "fst ` set ((t @ n1) @ n2) = fst ` set (t @ n1) \<union> set qs"
    using t2 executemany_Ignore_keys insert_batch_def by metis
  have in1: "k \<in> fst ` set (t @ n1)"
    using k1 assms(2) by blast
  have in2: "k \<in> fst ` set ((t @ n1) @ n2)"
    using k2 in1 by blast
  have "set ps \<subseteq> fst ` set (t @ n1)"
    using k1 by blast
  then have again: "insert_batch c3 (t @ n1) ps = Inr (t @ n1)"
    unfolding insert_batch_def by (rule executemany_Ignore_present)
  show ?thesis
    using t1 t2 again primary_key_records_for [OF pk1 in1]
      primary_key_records_for [OF pk2 in2]
    by blast
qed

theorem insert_batch_idempotent_witness:
  "primary_key [] \<and> ''Pa55!'' \<in> set [''Pa55!'', ''Pa55!'']
   \<and> (\<exists>t1 t2. insert_batch (\<lambda>i. 7) [] [''Pa55!'', ''Pa55!''] = Inr t1
         \<and> records_for t1 ''Pa55!'' = 1
         \<and> insert_batch (\<lambda>i. 8) t1 [''Pa55!''] = Inr t2 \<and> records_for t2 ''Pa55!'' = 1
         \<and> insert_batch (\<lambda>i. 9) t1 [''Pa55!'', ''Pa55!''] = Inr t1)"
proof -
  have a: "primary_key []" by (simp add: primary_key_def)
  have b: "''Pa55!'' \<in> set [''Pa55!'', ''Pa55!'']" by simp
  show ?thesis
    using a b insert_batch_idempotent [OF a b, of "\<lambda>i. 7" "\<lambda>i. 8" "[''Pa55!'']" "\<lambda>i. 9"]
    by blast
qed

text \<open>
  C9. No operation of the store updates or deletes a row: creating the schema on a file
  that has the table keeps the table, \<open>exists\<close> leaves the table as it was, and
  \<open>insert_batch\<close> returns the old table followed by the rows it added, so every
  earlier row keeps its position, its key and its created timestamp.
\<close>

theorem store_only_adds_rows:
  "init_db (Some t) = t \<and> snd (exists t k) = t
   \<and> (\<exists>new. insert_batch clock t ps = Inr (t @ new))"
proof -
  have "\<exists>new. insert_batch clock t ps = Inr (t @ new)"
    using insert_batch_extends [of clock t ps] by blast
  then show ?thesis by (simp add: init_db_def exists_def)
qed

section \<open>Partitioning the word list (main)\<close>

text \<open>
  \<open>config.max_workers = cpu_count() - 1 or 1\<close>: Python's \<open>or\<close> takes the right operand
  when the left one is zero.
\<close>

definition max_workers :: "int \<Rightarrow> int" where
  "max_workers cpu_count = (if cpu_count - 1 = 0 then 1 else cpu_count - 1)"

datatype py_error = ValueError | ZeroDivisionError | IndexError

text \<open>
  \<open>range(start, stop, step)\<close> for a step that is not negative: a zero step raises
  ValueError, otherwise the range holds \<open>start, start + step, ...\<close> below \<open>stop\<close>.
\<close>

definition py_range :: "nat \<Rightarrow> nat \<Rightarrow> nat \<Rightarrow> py_error + nat list" where
  "py_range start stop step =
     (if step = 0 then Inl ValueError
      else Inr (map (\<lambda>j. start + j * step) [0 ..< (stop - start + step - 1) div step]))"

definition floordiv :: "nat \<Rightarrow> nat \<Rightarrow> py_error + nat" where
  "floordiv a b = (if b = 0 then Inl ZeroDivisionError else Inr (a div b))"

text \<open>The slice \<open>words[i:i+chunk_size]\<close> stops at the end of the list.\<close>

definition slice :: "'a list \<Rightarrow> nat \<Rightarrow> nat \<Rightarrow> 'a list" where
  "slice xs i j = take (j - i) (drop i xs)"

definition word_chunks :: "nat \<Rightarrow> 'a list \<Rightarrow> py_error + 'a list list" where
  "word_chunks workers words =
     (case floordiv (length words) workers of
        Inl e \<Rightarrow> Inl e
      | Inr chunk_size \<Rightarrow>
          (case py_range 0 (length words) chunk_size of
             Inl e \<Rightarrow> Inl e
           | Inr starts \<Rightarrow> Inr (map (\<lambda>i. slice words i (i + chunk_size)) starts)))"

text \<open>
  One process is started per chunk; the monitor reports how many of them are alive.
  \<open>alive\<close> holds \<open>p.is_alive()\<close> for each started worker, in order.
\<close>

definition workers_active :: "bool list \<Rightarrow> nat" where
  "workers_active alive = length (filter (\<lambda>a. a) alive)"

subsection \<open>What the partition guarantees\<close>

lemma max_workers_default: "0 < cpu_count \<Longrightarrow> max_workers cpu_count = max 1 (cpu_count - 1)"
  by (auto simp: max_workers_def)

lemma concat_slices:
  "concat (map (\<lambda>i. slice words i (i + chunk_size)) (map (\<lambda>j. 0 + j * chunk_size) [0 ..< k]))
     = take (k * chunk_size) words"
proof (induction k)
  case 0
  show ?case by simp
next
  case (Suc k)
  have "take (Suc k * chunk_size) words
      = take (k * chunk_size) words @ take chunk_size (drop (k * chunk_size) words)"
    using take_add [of "k * chunk_size" chunk_size words] by (simp add: add.commute)
  with Suc show ?case by (simp add: slice_def)
qed

lemma ceil_covers:
  assumes "0 < (c::nat)"
  shows "n \<le> (n + c - 1) div c * c"
proof -
  have "(n + c - 1) mod c < c" using assms by simp
  moreover have "(n + c - 1) div c * c + (n + c - 1) mod c = n + c - 1"
    by (rule div_mult_mod_eq)
  ultimately show ?thesis using assms by linarith
qed

lemma word_chunks_concat:
  assumes "word_chunks workers words = Inr chunks"
  shows "concat chunks = words
         \<and> length chunks = (length words + length words div workers - 1) div (length words div workers)"
proof -
  let ?c = "length words div workers"
  from assms have c: "0 < ?c" and w: "workers \<noteq> 0"
    by (auto simp: word_chunks_def floordiv_def py_range_def split: if_splits)
  let ?k = "(length words + ?c - 1) div ?c"
  from assms w c have chunks:
    "chunks = map (\<lambda>i. slice words i (i + ?c)) (map (\<lambda>j. 0 + j * ?c) [0 ..< ?k])"
    by (simp add: word_chunks_def floordiv_def py_range_def)
  have "concat chunks = take (?k * ?c) words"
    unfolding chunks by (rule concat_slices)
  moreover have "length words \<le> ?k * ?c" using c by (rule ceil_covers)
  ultimately show ?thesis using chunks by simp
qed

lemma word_chunks_exact:
  assumes "word_chunks workers words = Inr chunks" and "workers dvd length words"
  shows "length chunks = workers"
proof -
  let ?c = "length words div workers"
  from assms(1) have c: "0 < ?c" and w: "workers \<noteq> 0"
    by (auto simp: word_chunks_def floordiv_def py_range_def split: if_splits)
  have n: "length words = workers * ?c" using assms(2) by simp
  have "(workers * ?c + ?c - 1) div ?c = workers"
  proof -
    have "workers * ?c + ?c - 1 = (?c - 1) + workers * ?c" using c by simp
    then have "(workers * ?c + ?c - 1) div ?c = (?c - 1) div ?c + workers"
      using c by (simp only: div_mult_self1 [of ?c "?c - 1" workers] mult.commute)
    with c show ?thesis by simp
  qed
  with word_chunks_concat [OF assms(1)] n show ?thesis by simp
qed

text \<open>
  C3. The list of chunks has more entries than the worker count when the count does not
  divide the number of words: seven words for three workers give four chunks, and so
  four worker processes. With fewer words than workers the chunk size is zero and the
  partition raises.
\<close>

theorem word_chunks_seven_for_three:
  "word_chunks 3 [''w1'', ''w2'', ''w3'', ''w4'', ''w5'', ''w6'', ''w7'']
     = Inr [[''w1'', ''w2''], [''w3'', ''w4''], [''w5'', ''w6''], [''w7'']]"
  by (simp add: word_chunks_def floordiv_def py_range_def slice_def upt_rec)

lemma word_chunks_fallback_on_eight_cores:
  "word_chunks (nat (max_workers 8)) [''cat'', ''dog'', ''sun'', ''bird'', ''password'', ''hello'']
     = Inl ValueError"
  by (simp add: word_chunks_def floordiv_def py_range_def max_workers_def)

text \<open>
  C4. With seven words and three configured workers four processes are started; while
  all of them run, the monitor reports four active workers.
\<close>

theorem workers_active_exceeds_configured:
  "\<exists>chunks. word_chunks 3 [''w1'', ''w2'', ''w3'', ''w4'', ''w5'', ''w6'', ''w7''] = Inr chunks
     \<and> workers_active (map (\<lambda>chunk. True) chunks) = 4"
  by (simp add: word_chunks_def floordiv_def py_range_def slice_def upt_rec
      workers_active_def)

section \<open>Characters, configuration and the random source\<close>

text \<open>
  Characters are ASCII code points: \<open>isupper\<close> holds of A to Z, \<open>isdigit\<close> of 0 to 9,
  and \<open>upper\<close> and \<open>lower\<close> move a letter between the two cases and leave every other
  character alone, as Python's \<open>str\<close> methods do on ASCII text.
\<close>

definition isupper :: "char \<Rightarrow> bool" where
  "isupper c = (65 \<le> (of_char c :: nat) \<and> (of_char c :: nat) \<le> 90)"

definition isdigit :: "char \<Rightarrow> bool" where
  "isdigit c = (48 \<le> (of_char c :: nat) \<and> (of_char c :: nat) \<le> 57)"

definition upper :: "char \<Rightarrow> char" where
  "upper c = (if 97 \<le> (of_char c :: nat) \<and> (of_char c :: nat) \<le> 122
              then char_of ((of_char c :: nat) - 32) else c)"

definition lower :: "char \<Rightarrow> char" where
  "lower c = (if isupper c then char_of ((of_char c :: nat) + 32) else c)"

primrec any :: "('a \<Rightarrow> bool) \<Rightarrow> 'a list \<Rightarrow> bool" where
  "any P [] = False"
| "any P (x # xs) = (P x \<or> any P xs)"

definition substitutions :: "char \<Rightarrow> string option" where
  "substitutions =
     [CHR ''a'' \<mapsto> ''@4'', CHR ''b'' \<mapsto> ''8'', CHR ''e'' \<mapsto> ''3'', CHR ''g'' \<mapsto> ''9'',
      CHR ''i'' \<mapsto> ''1!'', CHR ''o'' \<mapsto> ''0'', CHR ''s'' \<mapsto> ''$5'', CHR ''t'' \<mapsto> ''7'']"

definition common_numbers :: string where
  "common_numbers = ''0123456789''"

definition common_symbols :: string where
  "common_symbols = ''!@#$%&''"

text \<open>
  The module \<open>random\<close> is an endless stream of draws. \<open>randint a b\<close> raises on an empty
  range and otherwise returns some integer from \<open>a\<close> to \<open>b\<close>; \<open>choice\<close> returns some
  element of a sequence that is not empty; \<open>shuffle\<close> swaps as CPython does, from the last
  position down to the second, each with a position at or below it.
\<close>

type_synonym rng = "nat stream"

definition randint :: "int \<Rightarrow> int \<Rightarrow> rng \<Rightarrow> py_error + (int \<times> rng)" where
  "randint a b g =
     (if b < a then Inl ValueError
      else Inr (a + int (shd g) mod (b - a + 1), stl g))"

definition choice :: "'a list \<Rightarrow> rng \<Rightarrow> py_error + ('a \<times> rng)" where
  "choice seq g =
     (if seq = [] then Inl IndexError
      else Inr (seq ! (shd g mod length seq), stl g))"

fun shuffle_down :: "nat \<Rightarrow> 'a list \<Rightarrow> rng \<Rightarrow> 'a list \<times> rng" where
  "shuffle_down 0 x g = (x, g)"
| "shuffle_down (Suc i) x g =
     (let j = shd g mod (Suc i + 1)
      in shuffle_down i (x[Suc i := x ! j, j := x ! Suc i]) (stl g))"

definition shuffle :: "'a list \<Rightarrow> rng \<Rightarrow> 'a list \<times> rng" where
  "shuffle x g = shuffle_down (length x - 1) x g"

section \<open>generate_variations and enhance_password\<close>

text \<open>
  \<open>itertools.product\<close> of the option lists, the last position changing fastest.
\<close>

fun product :: "'a list list \<Rightarrow> 'a list list" where
  "product [] = [[]]"
| "product (options # rest) = concat (map (\<lambda>c. map ((#) c) (product rest)) options)"

definition char_options :: "string \<Rightarrow> string list" where
  "char_options word =
     map (\<lambda>char. (case substitutions char of None \<Rightarrow> [char] | Some subs \<Rightarrow> subs) @ [upper char])
       (map lower word)"

definition generate_variations :: "string \<Rightarrow> string list" where
  "generate_variations word = product (char_options word)"

text \<open>\<open>pwd.insert(i, x)\<close> for an index from 0 to the length; a larger index appends.\<close>

definition list_insert :: "nat \<Rightarrow> 'a \<Rightarrow> 'a list \<Rightarrow> 'a list" where
  "list_insert i x xs = take i xs @ x # drop i xs"

text \<open>
  The three steps of \<open>enhance_password\<close>. In the first the right-hand side of the
  assignment is evaluated before the index, so the symbol is drawn before the position.
\<close>

definition add_uppercase :: "string \<Rightarrow> rng \<Rightarrow> py_error + (string \<times> rng)" where
  "add_uppercase pwd g =
     (if \<not> any isupper pwd then
        (case choice common_symbols g of
           Inl e \<Rightarrow> Inl e
         | Inr (s, g1) \<Rightarrow>
             (case randint 0 (int (length pwd) - 1) g1 of
                Inl e \<Rightarrow> Inl e
              | Inr (i, g2) \<Rightarrow> Inr (pwd[nat i := upper s], g2)))
      else Inr (pwd, g))"

definition add_number :: "string \<Rightarrow> rng \<Rightarrow> py_error + (string \<times> rng)" where
  "add_number pwd g =
     (if \<not> any isdigit pwd then
        (case randint 1 (int (length pwd)) g of
           Inl e \<Rightarrow> Inl e
         | Inr (i, g1) \<Rightarrow>
             (case choice common_numbers g1 of
                Inl e \<Rightarrow> Inl e
              | Inr (d, g2) \<Rightarrow> Inr (list_insert (nat i) d pwd, g2)))
      else Inr (pwd, g))"

definition add_symbol :: "string \<Rightarrow> rng \<Rightarrow> py_error + (string \<times> rng)" where
  "add_symbol pwd g =
     (if \<not> any (\<lambda>c. c \<in> set common_symbols) pwd then
        (case randint 1 (int (length pwd)) g of
           Inl e \<Rightarrow> Inl e
         | Inr (i, g1) \<Rightarrow>
             (case choice common_symbols g1 of
                Inl e \<Rightarrow> Inl e
              | Inr (s, g2) \<Rightarrow> Inr (list_insert (nat i) s pwd, g2)))
      else Inr (pwd, g))"

definition enhance_password :: "string \<Rightarrow> rng \<Rightarrow> py_error + (string \<times> rng)" where
  "enhance_password password g =
     (case add_uppercase password g of
        Inl e \<Rightarrow> Inl e
      | Inr (pwd1, g1) \<Rightarrow>
          (case add_number pwd1 g1 of
             Inl e \<Rightarrow> Inl e
           | Inr (pwd2, g2) \<Rightarrow> add_symbol pwd2 g2))"

subsection \<open>What enhance_password guarantees\<close>

lemma any_iff: "any P xs \<longleftrightarrow> (\<exists>x\<in>set xs. P x)"
  by (induction xs) auto

lemma choice_member: "choice seq g = Inr (x, g') \<Longrightarrow> x \<in> set seq"
  by (auto simp: choice_def split: if_splits)

lemma randint_range: "randint a b g = Inr (i, g') \<Longrightarrow> a \<le> i \<and> i \<le> b"
proof -
  assume r: "randint a b g = Inr (i, g')"
  then have ab: "a \<le> b" and i: "i = a + int (shd g) mod (b - a + 1)"
    by (auto simp: randint_def split: if_splits)
  have "0 < b - a + 1" using ab by simp
  then have "0 \<le> int (shd g) mod (b - a + 1)" and "int (shd g) mod (b - a + 1) < b - a + 1"
    by (rule pos_mod_sign, rule pos_mod_bound)
  with i show ?thesis by linarith
qed

lemma symbol_plain:
  "c \<in> set common_symbols \<Longrightarrow> \<not> isupper c \<and> \<not> isupper (upper c) \<and> upper c = c"
  by (auto simp: common_symbols_def isupper_def upper_def)

lemma number_plain: "c \<in> set common_numbers \<Longrightarrow> \<not> isupper c \<and> isdigit c"
  by (auto simp: common_numbers_def isupper_def isdigit_def)

lemma any_list_insert: "any P (list_insert i x xs) \<longleftrightarrow> P x \<or> any P xs"
proof -
  have "set (take i xs) \<union> set (drop i xs) = set xs"
    using set_append [of "take i xs" "drop i xs"] by simp
  then have "set (take i xs @ x # drop i xs) = insert x (set xs)"
    by auto
  then show ?thesis
    unfolding any_iff list_insert_def by simp
qed

lemma any_list_update:
  "\<not> any P xs \<Longrightarrow> \<not> P x \<Longrightarrow> \<not> any P (xs[i := x])"
  unfolding any_iff using set_update_subset_insert [of xs i x] by auto

lemma add_uppercase_upper:
  "add_uppercase pwd g = Inr (out, g') \<Longrightarrow> any isupper out = any isupper pwd"
  by (auto simp: add_uppercase_def split: if_splits sum.splits
      dest!: choice_member symbol_plain intro: any_list_update dest: any_list_update)

lemma add_number_upper:
  "add_number pwd g = Inr (out, g') \<Longrightarrow> any isupper out = any isupper pwd"
  by (auto simp: add_number_def any_list_insert split: if_splits sum.splits
      dest!: choice_member number_plain)

lemma add_symbol_upper:
  "add_symbol pwd g = Inr (out, g') \<Longrightarrow> any isupper out = any isupper pwd"
  by (auto simp: add_symbol_def any_list_insert split: if_splits sum.splits
      dest!: choice_member symbol_plain)

lemma enhance_password_upper:
  "enhance_password pwd g = Inr (out, g') \<Longrightarrow> any isupper out = any isupper pwd"
  by (auto simp: enhance_password_def split: sum.splits
      dest!: add_uppercase_upper add_number_upper add_symbol_upper)

lemma add_number_digit:
  "add_number pwd g = Inr (out, g') \<Longrightarrow> any isdigit out"
  by (auto simp: add_number_def any_list_insert split: if_splits sum.splits
      dest!: choice_member number_plain)

lemma add_symbol_symbol:
  "add_symbol pwd g = Inr (out, g') \<Longrightarrow> any (\<lambda>c. c \<in> set common_symbols) out"
  by (auto simp: add_symbol_def any_list_insert split: if_splits sum.splits
      dest!: choice_member)

lemma add_symbol_keeps:
  "add_symbol pwd g = Inr (out, g') \<Longrightarrow> any P pwd \<Longrightarrow> any P out"
  by (auto simp: add_symbol_def any_list_insert split: if_splits sum.splits)

lemma enhance_password_digit_symbol:
  "enhance_password pwd g = Inr (out, g') \<Longrightarrow>
     any isdigit out \<and> any (\<lambda>c. c \<in> set common_symbols) out"
proof -
  assume "enhance_password pwd g = Inr (out, g')"
  then obtain p1 g1 p2 g2 where "add_number p1 g1 = Inr (p2, g2)"
    and s: "add_symbol p2 g2 = Inr (out, g')"
    by (auto simp: enhance_password_def split: sum.splits)
  then have "any isdigit p2" by (auto dest: add_number_digit)
  with s show ?thesis
    using add_symbol_keeps add_symbol_symbol by blast
qed

lemma add_uppercase_total:
  "pwd \<noteq> [] \<Longrightarrow> \<exists>out g'. add_uppercase pwd g = Inr (out, g') \<and> out \<noteq> []"
  by (auto simp: add_uppercase_def choice_def randint_def common_symbols_def)

lemma add_number_total:
  "pwd \<noteq> [] \<Longrightarrow> \<exists>out g'. add_number pwd g = Inr (out, g') \<and> out \<noteq> []"
  by (auto simp: add_number_def choice_def randint_def common_numbers_def list_insert_def)

lemma add_symbol_total:
  "pwd \<noteq> [] \<Longrightarrow> \<exists>out g'. add_symbol pwd g = Inr (out, g') \<and> out \<noteq> []"
  by (auto simp: add_symbol_def choice_def randint_def common_symbols_def list_insert_def)

lemma enhance_password_total:
  assumes "pwd \<noteq> []"
  shows "\<exists>out g'. enhance_password pwd g = Inr (out, g')"
proof -
  obtain p1 g1 where 1: "add_uppercase pwd g = Inr (p1, g1)" "p1 \<noteq> []"
    using add_uppercase_total [OF assms] by blast
  obtain p2 g2 where 2: "add_number p1 g1 = Inr (p2, g2)" "p2 \<noteq> []"
    using add_number_total [OF 1(2)] by blast
  obtain p3 g3 where 3: "add_symbol p2 g2 = Inr (p3, g3)"
    using add_symbol_total [OF 2(2)] by blast
  show ?thesis using 1 2 3 by (simp add: enhance_password_def)
qed

lemma enhance_password_empty: "enhance_password [] g = Inl ValueError"
  by (simp add: enhance_password_def add_uppercase_def choice_def randint_def
      common_symbols_def)

lemma cat_variation: "''c@7'' \<in> set (generate_variations ''cat'')"
  by (simp add: generate_variations_def char_options_def substitutions_def lower_def upper_def isupper_def)

text \<open>
  C1. The candidate \<open>c@7\<close>, a variation of the word \<open>cat\<close>, has no uppercase
  letter. Whatever the random draws, \<open>enhance_password\<close> returns for it a string that
  still has none: the character written by the uppercase step is a symbol, which
  \<open>upper\<close> leaves as it is.
\<close>

theorem enhance_password_no_uppercase:
  "\<exists>out g'. enhance_password ''c@7'' g = Inr (out, g') \<and> \<not> any isupper out"
proof -
  obtain out g' where e: "enhance_password ''c@7'' g = Inr (out, g')"
    using enhance_password_total [of "''c@7''" g] by auto
  have "\<not> any isupper ''c@7''" by (simp add: isupper_def)
  with enhance_password_upper [OF e] e show ?thesis by blast
qed

section \<open>worker_process\<close>

text \<open>
  A worker runs against an environment it does not control. The cancellation flag goes
  from unset to set once: \<open>stop_after\<close> is the number of calls of \<open>is_set\<close> that still
  see it unset. Each call of \<open>db.exists\<close> opens its own connection and sees the table
  as other processes have left it: \<open>store\<close> holds the table for each coming call. Each
  \<open>output_queue.put\<close> blocks until the queue has room, without a timeout: \<open>room\<close> tells
  for each coming call whether it ever gets room. \<open>trace\<close> records what the worker does,
  in order. A worker that is never cancelled never leaves its loop; the runs modelled are
  those in which the flag is set after finitely many polls. Creating the \<open>PasswordDB\<close>
  handle runs the schema creation \<open>init_db\<close>, which keeps an existing table.
\<close>

datatype event = Enhanced string | Exists string bool | Put string | Poll bool

record worker =
  stop_after :: nat
  rand :: rng
  store :: "table stream"
  room :: "bool stream"
  bloom_filter :: "string set"
  trace :: "event list"

datatype 'a flow = Next 'a | Return 'a | Blocked 'a | Raised py_error 'a

primrec final :: "'a flow \<Rightarrow> 'a" where
  "final (Next w) = w"
| "final (Return w) = w"
| "final (Blocked w) = w"
| "final (Raised e w) = w"

definition is_set :: "nat \<Rightarrow> bool \<times> nat" where
  "is_set unset = (case unset of 0 \<Rightarrow> (True, 0) | Suc n \<Rightarrow> (False, n))"

definition stop_event_is_set :: "worker \<Rightarrow> bool \<times> worker" where
  "stop_event_is_set w =
     (case is_set (stop_after w) of
        (stop, n) \<Rightarrow> (stop, w\<lparr>stop_after := n, trace := trace w @ [Poll stop]\<rparr>))"

definition db_exists :: "string \<Rightarrow> worker \<Rightarrow> bool \<times> worker" where
  "db_exists password w =
     (case exists (shd (store w)) password of
        (found, t) \<Rightarrow>
          (found, w\<lparr>store := stl (store w), trace := trace w @ [Exists password found]\<rparr>))"

text \<open>\<open>None\<close>: the call never returns.\<close>

definition put :: "string \<Rightarrow> worker \<Rightarrow> worker option" where
  "put item w =
     (if shd (room w)
      then Some (w\<lparr>room := stl (room w), trace := trace w @ [Put item]\<rparr>)
      else None)"

text \<open>The body of the innermost loop: one variation.\<close>

definition emit :: "string \<Rightarrow> worker \<Rightarrow> worker flow" where
  "emit enhanced w =
     (if enhanced \<notin> bloom_filter w then
        (case db_exists enhanced w of
           (found, w1) \<Rightarrow>
             if \<not> found then
               (case put enhanced w1 of
                  None \<Rightarrow> Blocked w1
                | Some w2 \<Rightarrow> Next (w2\<lparr>bloom_filter := insert enhanced (bloom_filter w2)\<rparr>))
             else Next w1)
      else Next w)"

definition candidate :: "string \<Rightarrow> worker \<Rightarrow> worker flow" where
  "candidate variation w =
     (case enhance_password variation (rand w) of
        Inl e \<Rightarrow> Raised e w
      | Inr (enhanced, g) \<Rightarrow>
          (case emit enhanced (w\<lparr>rand := g, trace := trace w @ [Enhanced enhanced]\<rparr>) of
             Next w1 \<Rightarrow>
               (case stop_event_is_set w1 of
                  (stop, w2) \<Rightarrow> if stop then Return w2 else Next w2)
           | other \<Rightarrow> other))"

fun for_variations :: "string list \<Rightarrow> worker \<Rightarrow> worker flow" where
  "for_variations [] w = Next w"
| "for_variations (variation # rest) w =
     (case candidate variation w of
        Next w1 \<Rightarrow> for_variations rest w1
      | other \<Rightarrow> other)"

fun for_words :: "string list \<Rightarrow> worker \<Rightarrow> worker flow" where
  "for_words [] w = Next w"
| "for_words (word # rest) w =
     (case for_variations (generate_variations word) w of
        Next w1 \<Rightarrow> for_words rest w1
      | other \<Rightarrow> other)"

lemma stop_event_is_set_unset:
  "stop_event_is_set w = (False, w1) \<Longrightarrow> stop_after w1 < stop_after w"
  by (auto simp: stop_event_is_set_def is_set_def split: nat.splits)

lemma stop_event_is_set_le:
  "stop_event_is_set w = (stop, w1) \<Longrightarrow> stop_after w1 \<le> stop_after w"
  by (auto simp: stop_event_is_set_def is_set_def split: nat.splits)

lemma emit_stop_after:
  "emit enhanced w = Next w1 \<Longrightarrow> stop_after w1 = stop_after w"
  by (auto simp: emit_def db_exists_def exists_def put_def
      split: if_splits option.splits)

lemma candidate_stop_after:
  "candidate variation w = Next w1 \<Longrightarrow> stop_after w1 \<le> stop_after w"
  by (auto simp: candidate_def split: sum.splits flow.splits prod.splits if_splits
      dest!: emit_stop_after stop_event_is_set_le)

lemma for_variations_stop_after:
  "for_variations vs w = Next w1 \<Longrightarrow> stop_after w1 \<le> stop_after w"
proof (induction vs arbitrary: w)
  case Nil
  then show ?case by simp
next
  case (Cons v vs)
  then obtain w2 where c: "candidate v w = Next w2" and r: "for_variations vs w2 = Next w1"
    by (auto split: flow.splits)
  from candidate_stop_after [OF c] Cons.IH [OF r] show ?case by simp
qed

lemma for_words_stop_after:
  "for_words ws w = Next w1 \<Longrightarrow> stop_after w1 \<le> stop_after w"
proof (induction ws arbitrary: w)
  case Nil
  then show ?case by simp
next
  case (Cons x ws)
  then obtain w2 where c: "for_variations (generate_variations x) w = Next w2"
    and r: "for_words ws w2 = Next w1"
    by (auto split: flow.splits)
  from for_variations_stop_after [OF c] Cons.IH [OF r] show ?case by simp
qed

lemma pass_decreases:
  assumes "(False, w1) = stop_event_is_set w"
    and "for_words ws (w1\<lparr>rand := g\<rparr>) = Next w2"
  shows "stop_after w2 < stop_after w"
proof -
  have "stop_after w1 < stop_after w"
    using assms(1) stop_event_is_set_unset [of w w1] by simp
  moreover have "stop_after w2 \<le> stop_after w1"
    using for_words_stop_after [OF assms(2)] by simp
  ultimately show ?thesis by simp
qed

text \<open>
  The outer loop. \<open>random.shuffle\<close> reorders the chunk in place, so the next pass starts
  from the shuffled list. Every pass begins with a poll that sees the flag unset, so the
  loop ends once the flag is set.
\<close>

function while_not_set :: "string list \<Rightarrow> worker \<Rightarrow> worker flow" where
  "while_not_set word_chunk w =
     (case stop_event_is_set w of
        (stop, w1) \<Rightarrow>
          if stop then Return w1
          else
            (case shuffle word_chunk (rand w1) of
               (shuffled, g) \<Rightarrow>
                 (case for_words shuffled (w1\<lparr>rand := g\<rparr>) of
                    Next w2 \<Rightarrow> while_not_set shuffled w2
                  | other \<Rightarrow> other)))"
  by pat_completeness auto
termination
  by (relation "measure (\<lambda>(word_chunk, w). stop_after w)") (auto intro: pass_decreases)

declare while_not_set.simps [simp del]

definition worker_process :: "string list \<Rightarrow> nat \<Rightarrow> rng \<Rightarrow> table stream \<Rightarrow> bool stream \<Rightarrow> worker flow" where
  "worker_process word_chunk cancel g tables rooms =
     while_not_set word_chunk
       \<lparr>stop_after = cancel, rand = g, store = tables, room = rooms,
        bloom_filter = {}, trace = []\<rparr>"

subsection \<open>The filtering rule, as the specification words it\<close>

text \<open>
  For each candidate: skip it if it is in the local seen set; otherwise query the store,
  and if the key is absent push the candidate and add it to the seen set; then poll the
  cancellation signal, and stop at the poll that sees it set. \<open>spec_run\<close> reads a trace
  against this rule, starting from a seen set, and rejects (\<open>None\<close>) a trace that
  breaks it: a query for a candidate in the seen set, a push without an answer of
  absent just before it, a push of a candidate in the seen set, a second candidate without
  a poll in between, or anything after a poll that saw the signal set.
\<close>

datatype expect = Idle | Fresh string | Absent string | Handled | Stopped

fun spec_step :: "string set \<times> expect \<Rightarrow> event \<Rightarrow> (string set \<times> expect) option" where
  "spec_step (seen, Idle) (Enhanced c) = Some (seen, Fresh c)"
| "spec_step (seen, Idle) (Poll stop) = Some (seen, if stop then Stopped else Idle)"
| "spec_step (seen, Fresh c) (Poll stop) =
     (if c \<in> seen then Some (seen, if stop then Stopped else Idle) else None)"
| "spec_step (seen, Fresh c) (Exists p found) =
     (if p = c \<and> c \<notin> seen then Some (seen, if found then Handled else Absent c) else None)"
| "spec_step (seen, Absent c) (Put p) =
     (if p = c \<and> c \<notin> seen then Some (insert c seen, Handled) else None)"
| "spec_step (seen, Handled) (Poll stop) = Some (seen, if stop then Stopped else Idle)"
| "spec_step (seen, other) e = None"

fun spec_run :: "string set \<times> expect \<Rightarrow> event list \<Rightarrow> (string set \<times> expect) option" where
  "spec_run m [] = Some m"
| "spec_run m (e # es) = (case spec_step m e of None \<Rightarrow> None | Some m' \<Rightarrow> spec_run m' es)"

fun pushes :: "event list \<Rightarrow> string list" where
  "pushes [] = []"
| "pushes (Put p # es) = p # pushes es"
| "pushes (e # es) = pushes es"


lemma spec_run_append:
  "spec_run m (es @ fs) = (case spec_run m es of None \<Rightarrow> None | Some m' \<Rightarrow> spec_run m' fs)"
  by (induction es arbitrary: m) (auto split: option.splits)

lemma pushes_append: "pushes (es @ fs) = pushes es @ pushes fs"
  by (induction es rule: pushes.induct) auto


lemma spec_step_pushes:
  "spec_step (S, st) e = Some (S', st') \<Longrightarrow>
     S' = S \<union> set (pushes [e]) \<and> S \<inter> set (pushes [e]) = {} \<and> distinct (pushes [e])"
  by (cases st; cases e) (auto split: if_splits)

lemma spec_run_pushes:
  "spec_run (S, st) es = Some (S', st') \<Longrightarrow>
     distinct (pushes es) \<and> S' = S \<union> set (pushes es) \<and> S \<inter> set (pushes es) = {}"
proof (induction es arbitrary: S st)
  case Nil
  then show ?case by simp
next
  case (Cons e es)
  then obtain S1 st1 where s: "spec_step (S, st) e = Some (S1, st1)"
    and r: "spec_run (S1, st1) es = Some (S', st')"
    by (auto split: option.splits)
  note a = spec_step_pushes [OF s] and b = Cons.IH [OF r]
  have p: "pushes (e # es) = pushes [e] @ pushes es"
    using pushes_append [of "[e]" es] by simp
  show ?case unfolding p using a b by auto
qed

lemma spec_rejects_push_without_query: "spec_run ({}, Idle) [Enhanced c, Put c] = None"
  by simp

lemma spec_rejects_push_of_present:
  "spec_run ({}, Idle) [Enhanced c, Exists c True, Put c] = None"
  by simp

lemma spec_rejects_query_of_seen: "spec_run ({c}, Idle) [Enhanced c, Exists c False] = None"
  by simp

lemma spec_rejects_unpolled_candidate:
  "spec_run ({}, Idle) [Enhanced c, Exists c True, Enhanced d] = None"
  by simp

lemma spec_rejects_unqueried_candidate:
  "spec_run ({}, Idle) [Enhanced c, Poll stop] = None"
  by simp

text \<open>
  A trace that stops short is read up to where it stops, and the state reached tells what
  is still owed: a query after \<open>Fresh\<close>, a push after \<open>Absent\<close>, a poll after \<open>Handled\<close>.
\<close>

lemma spec_owes_query: "spec_run ({}, Idle) [Poll False, Enhanced c] = Some ({}, Fresh c)"
  by simp

lemma spec_owes_push:
  "spec_run ({}, Idle) [Poll False, Enhanced c, Exists c False] = Some ({}, Absent c)"
  by simp

subsection \<open>The worker follows the rule\<close>

definition conforms :: "worker \<Rightarrow> expect \<Rightarrow> bool" where
  "conforms w st = (spec_run ({}, Idle) (trace w) = Some (bloom_filter w, st))"

lemma emit_conforms:
  assumes "conforms w (Fresh c)"
  shows "case emit c w of
           Next w1 \<Rightarrow> conforms w1 Handled \<or> (c \<in> bloom_filter w \<and> w1 = w)
         | Blocked w1 \<Rightarrow> conforms w1 (Absent c)
         | other \<Rightarrow> False"
  using assms
  by (auto simp: conforms_def emit_def db_exists_def exists_def put_def spec_run_append
      split: option.splits)

lemma candidate_conforms:
  assumes "conforms w Idle"
  shows "case candidate v w of
           Next w1 \<Rightarrow> conforms w1 Idle
         | Return w1 \<Rightarrow> conforms w1 Stopped
         | Blocked w1 \<Rightarrow> (\<exists>c. conforms w1 (Absent c))
         | Raised e w1 \<Rightarrow> conforms w1 Idle"
proof (cases "enhance_password v (rand w)")
  case (Inl e)
  with assms show ?thesis by (simp add: candidate_def)
next
  case (Inr r)
  obtain c g where r: "r = (c, g)" by (cases r)
  let ?w = "w\<lparr>rand := g, trace := trace w @ [Enhanced c]\<rparr>"
  have f: "conforms ?w (Fresh c)"
    using assms by (simp add: conforms_def spec_run_append)
  show ?thesis
  proof (cases "emit c ?w")
    case (Next w1)
    with emit_conforms [OF f]
    have h: "conforms w1 Handled \<or> (c \<in> bloom_filter ?w \<and> w1 = ?w)" by simp
    have "conforms (snd (stop_event_is_set w1)) (if fst (stop_event_is_set w1) then Stopped else Idle)"
      using h f
      by (auto simp: conforms_def stop_event_is_set_def is_set_def spec_run_append
          split: nat.splits)
    with Inr r Next show ?thesis
      by (auto simp: candidate_def split: prod.splits)
  next
    case (Return w1)
    with emit_conforms [OF f] show ?thesis by simp
  next
    case (Blocked w1)
    with emit_conforms [OF f] Inr r show ?thesis
      by (auto simp: candidate_def)
  next
    case (Raised e w1)
    with emit_conforms [OF f] show ?thesis by simp
  qed
qed

definition conforms_flow :: "worker flow \<Rightarrow> bool" where
  "conforms_flow r =
     (case r of
        Next w1 \<Rightarrow> conforms w1 Idle
      | Return w1 \<Rightarrow> conforms w1 Stopped
      | Blocked w1 \<Rightarrow> (\<exists>c. conforms w1 (Absent c))
      | Raised e w1 \<Rightarrow> conforms w1 Idle)"

lemma for_variations_conforms:
  "conforms w Idle \<Longrightarrow> conforms_flow (for_variations vs w)"
proof (induction vs arbitrary: w)
  case Nil
  then show ?case by (simp add: conforms_flow_def)
next
  case (Cons v vs)
  from candidate_conforms [OF Cons.prems, of v] Cons.IH show ?case
    by (cases "candidate v w") (auto simp: conforms_flow_def)
qed

lemma for_words_conforms:
  "conforms w Idle \<Longrightarrow> conforms_flow (for_words ws w)"
proof (induction ws arbitrary: w)
  case Nil
  then show ?case by (simp add: conforms_flow_def)
next
  case (Cons x ws)
  from for_variations_conforms [OF Cons.prems, of "generate_variations x"] Cons.IH show ?case
    by (cases "for_variations (generate_variations x) w") (auto simp: conforms_flow_def)
qed

lemma while_not_set_conforms:
  "conforms w Idle \<Longrightarrow> conforms_flow (while_not_set ws w)"
proof (induction ws w rule: while_not_set.induct)
  case (1 ws w)
  obtain stop w1 where p: "stop_event_is_set w = (stop, w1)" by (cases "stop_event_is_set w")
  have c1: "conforms w1 (if stop then Stopped else Idle)"
    using p "1.prems"
    by (auto simp: conforms_def stop_event_is_set_def is_set_def spec_run_append
        split: nat.splits)
  show ?case
  proof (cases stop)
    case True
    with p c1 show ?thesis
      by (subst while_not_set.simps) (simp add: conforms_flow_def)
  next
    case False
    obtain sh g where s: "shuffle ws (rand w1) = (sh, g)" by (cases "shuffle ws (rand w1)")
    have c2: "conforms (w1\<lparr>rand := g\<rparr>) Idle"
      using c1 False by (simp add: conforms_def)
    note fw = for_words_conforms [OF c2, of sh]
    show ?thesis
    proof (cases "for_words sh (w1\<lparr>rand := g\<rparr>)")
      case (Next w2)
      with fw have "conforms w2 Idle" by (simp add: conforms_flow_def)
      from "1.IH" [OF p [symmetric] False s [symmetric] Next this]
      show ?thesis
        using p False s Next by (subst while_not_set.simps) simp
    next
      case (Return w2)
      with fw p False s show ?thesis by (subst while_not_set.simps) simp
    next
      case (Blocked w2)
      with fw p False s show ?thesis by (subst while_not_set.simps) simp
    next
      case (Raised e w2)
      with fw p False s show ?thesis by (subst while_not_set.simps) simp
    qed
  qed
qed

lemma worker_process_conforms:
  "conforms_flow (worker_process ws n g ts rs)"
  unfolding worker_process_def
  by (rule while_not_set_conforms) (simp add: conforms_def)

lemma worker_process_accepted:
  "\<exists>st. conforms (final (worker_process ws n g ts rs)) st"
  using worker_process_conforms [of ws n g ts rs]
  by (cases "worker_process ws n g ts rs") (auto simp: conforms_flow_def)


text \<open>
  C10. Within one run of a worker no string is pushed twice: the pushes of the trace
  are pairwise distinct.
\<close>

theorem worker_pushes_distinct:
  "distinct (pushes (trace (final (worker_process ws n g ts rs))))"
proof -
  obtain st where "spec_run ({}, Idle) (trace (final (worker_process ws n g ts rs)))
      = Some (bloom_filter (final (worker_process ws n g ts rs)), st)"
    using worker_process_accepted [of ws n g ts rs] by (auto simp: conforms_def)
  from spec_run_pushes [OF this] show ?thesis by simp
qed


subsection \<open>Polling per candidate\<close>








subsection \<open>Returning, and not returning\<close>

definition always :: "'a \<Rightarrow> 'a stream" where
  "always x = sconst x"

lemma shd_always: "shd (always x) = x"
  by (simp add: always_def)

lemma stl_always: "stl (always x) = always x"
  by (simp add: always_def)
























section \<open>writer_process\<close>

text \<open>
  The writer, too, runs against its environment. \<open>cancel_after\<close> counts the calls of
  \<open>is_set\<close> that still see the flag unset. \<open>stop_event\<close> and \<open>output_queue\<close> are proxies of
  the manager process: \<open>manager\<close> tells for each coming call of \<open>stop_event.is_set()\<close> or
  \<open>output_queue.empty()\<close> whether the manager answers (\<open>None\<close>) or the call raises, as it
  does once the manager process is gone. \<open>queue_empty\<close> holds the coming answers of
  \<open>output_queue.empty()\<close>; \<open>gets\<close> holds the outcome of each coming
  \<open>output_queue.get(timeout=1)\<close>, an item or an exception (\<open>Empty\<close> after the timeout);
  \<open>flushes\<close> tells for each coming \<open>db.insert_batch\<close> whether the connection raises or the
  transaction commits, and then with which clock. The table \<open>db\<close> is written by the
  writer alone. \<open>dequeued\<close> records every item \<open>get\<close> has returned, \<open>errors\<close> the calls of
  \<open>logger.error\<close> and \<open>infos\<close> those of \<open>logger.info\<close>. \<open>exn\<close> stands for the instances of
  \<open>Exception\<close>, which is what the \<open>except\<close> clause catches.

  The main loop may run for ever, so it carries fuel: \<open>None\<close> is a writer that is still
  in its loop when the fuel is spent. The loop test and the final flush stand outside the
  \<open>try\<close>, and the handler's own poll of the flag is not protected either: an exception
  there ends the process (\<open>Aborted\<close>).
\<close>

datatype exn = Empty | BrokenPipeError | StoreError sql_error | OtherError

datatype get_result = Item string | GetRaises exn

datatype flush_result = Commits "nat \<Rightarrow> timestamp" | FlushRaises exn

record writer =
  cancel_after :: nat
  manager :: "exn option stream"
  queue_empty :: "bool stream"
  gets :: "get_result stream"
  flushes :: "flush_result stream"
  db :: table
  batch :: "string list"
  dequeued :: "string list"
  errors :: "exn list"
  infos :: "nat list"

datatype 'a ending = Finished 'a | Aborted exn 'a

definition writer_is_set :: "writer \<Rightarrow> (exn \<times> writer) + (bool \<times> writer)" where
  "writer_is_set w =
     (case shd (manager w) of
        Some e \<Rightarrow> Inl (e, w\<lparr>manager := stl (manager w)\<rparr>)
      | None \<Rightarrow>
          (case is_set (cancel_after w) of
             (stop, n) \<Rightarrow> Inr (stop, w\<lparr>manager := stl (manager w), cancel_after := n\<rparr>)))"

definition output_queue_empty :: "writer \<Rightarrow> (exn \<times> writer) + (bool \<times> writer)" where
  "output_queue_empty w =
     (case shd (manager w) of
        Some e \<Rightarrow> Inl (e, w\<lparr>manager := stl (manager w)\<rparr>)
      | None \<Rightarrow>
          Inr (shd (queue_empty w),
               w\<lparr>manager := stl (manager w), queue_empty := stl (queue_empty w)\<rparr>))"

definition queue_get :: "writer \<Rightarrow> get_result \<times> writer" where
  "queue_get w = (shd (gets w), w\<lparr>gets := stl (gets w)\<rparr>)"

definition db_insert_batch :: "writer \<Rightarrow> (exn \<times> writer) + writer" where
  "db_insert_batch w =
     (case shd (flushes w) of
        FlushRaises e \<Rightarrow> Inl (e, w\<lparr>flushes := stl (flushes w)\<rparr>)
      | Commits clock \<Rightarrow>
          (case insert_batch clock (db w) (batch w) of
             Inl e \<Rightarrow> Inl (StoreError e, w\<lparr>flushes := stl (flushes w)\<rparr>)
           | Inr t \<Rightarrow> Inr (w\<lparr>flushes := stl (flushes w), db := t\<rparr>)))"

function fill :: "nat \<Rightarrow> writer \<Rightarrow> (exn \<times> writer) + writer" where
  "fill batch_size w =
     (if length (batch w) < batch_size then
        (case queue_get w of
           (Item pwd, w1) \<Rightarrow>
             fill batch_size (w1\<lparr>batch := batch w1 @ [pwd], dequeued := dequeued w1 @ [pwd]\<rparr>)
         | (GetRaises e, w1) \<Rightarrow> Inl (e, w1))
      else Inr w)"
  by pat_completeness auto
termination
  by (relation "measure (\<lambda>(batch_size, w). batch_size - length (batch w))")
    (auto simp: queue_get_def)

declare fill.simps [simp del]

definition try_body :: "nat \<Rightarrow> writer \<Rightarrow> (exn \<times> writer) + writer" where
  "try_body batch_size w =
     (case fill batch_size w of
        Inl raised \<Rightarrow> Inl raised
      | Inr w1 \<Rightarrow>
          (case db_insert_batch w1 of
             Inl raised \<Rightarrow> Inl raised
           | Inr w2 \<Rightarrow> Inr (w2\<lparr>infos := infos w2 @ [length (batch w2)], batch := []\<rparr>)))"

text \<open>An exception raised by the handler's own \<open>is_set\<close> leaves the handler.\<close>

definition except_handler :: "exn \<Rightarrow> writer \<Rightarrow> (exn \<times> writer) + writer" where
  "except_handler e w =
     (case writer_is_set w of
        Inl raised \<Rightarrow> Inl raised
      | Inr (stop, w1) \<Rightarrow> Inr (if \<not> stop then w1\<lparr>errors := errors w1 @ [e]\<rparr> else w1))"

definition iteration :: "nat \<Rightarrow> writer \<Rightarrow> (exn \<times> writer) + writer" where
  "iteration batch_size w =
     (case try_body batch_size w of
        Inl (e, w1) \<Rightarrow> except_handler e w1
      | Inr w1 \<Rightarrow> Inr w1)"

text \<open>\<open>not stop_event.is_set() or not output_queue.empty()\<close>, the second call only when
  the first answers that the flag is set.\<close>

definition loop_condition :: "writer \<Rightarrow> (exn \<times> writer) + (bool \<times> writer)" where
  "loop_condition w =
     (case writer_is_set w of
        Inl raised \<Rightarrow> Inl raised
      | Inr (stop, w1) \<Rightarrow>
          if \<not> stop then Inr (True, w1)
          else
            (case output_queue_empty w1 of
               Inl raised \<Rightarrow> Inl raised
             | Inr (drained, w2) \<Rightarrow> Inr (\<not> drained, w2)))"

fun while_running :: "nat \<Rightarrow> nat \<Rightarrow> writer \<Rightarrow> writer ending option" where
  "while_running batch_size 0 w = None"
| "while_running batch_size (Suc fuel) w =
     (case loop_condition w of
        Inl (e, w1) \<Rightarrow> Some (Aborted e w1)
      | Inr (go, w1) \<Rightarrow>
          if go then
            (case iteration batch_size w1 of
               Inl (e, w2) \<Rightarrow> Some (Aborted e w2)
             | Inr w2 \<Rightarrow> while_running batch_size fuel w2)
          else Some (Finished w1))"

definition final_flush :: "writer \<Rightarrow> writer ending" where
  "final_flush w =
     (if batch w \<noteq> [] then
        (case db_insert_batch w of
           Inl (e, w1) \<Rightarrow> Aborted e w1
         | Inr w1 \<Rightarrow> Finished w1)
      else Finished w)"

definition writer_process ::
  "nat \<Rightarrow> nat \<Rightarrow> nat \<Rightarrow> exn option stream \<Rightarrow> bool stream \<Rightarrow> get_result stream
     \<Rightarrow> flush_result stream \<Rightarrow> table \<Rightarrow> writer ending option" where
  "writer_process batch_size fuel cancel answers empties items commits t =
     (case while_running batch_size fuel
             \<lparr>cancel_after = cancel, manager = answers, queue_empty = empties, gets = items,
              flushes = commits, db = t, batch = [], dequeued = [], errors = [], infos = []\<rparr> of
        None \<Rightarrow> None
      | Some (Aborted e w) \<Rightarrow> Some (Aborted e w)
      | Some (Finished w) \<Rightarrow> Some (final_flush w))"

subsection \<open>Nothing dequeued is dropped while the loop runs\<close>

definition kept :: "writer \<Rightarrow> bool" where
  "kept w = (set (dequeued w) \<subseteq> fst ` set (db w) \<union> set (batch w))"

lemma db_insert_batch_keys:
  "db_insert_batch w = Inr w1 \<Longrightarrow>
     fst ` set (db w1) = fst ` set (db w) \<union> set (batch w)
     \<and> batch w1 = batch w \<and> dequeued w1 = dequeued w"
proof -
  assume a: "db_insert_batch w = Inr w1"
  then obtain clock t where c: "shd (flushes w) = Commits clock"
    and i: "insert_batch clock (db w) (batch w) = Inr t"
    and w1: "w1 = w\<lparr>flushes := stl (flushes w), db := t\<rparr>"
    by (auto simp: db_insert_batch_def split: flush_result.splits sum.splits)
  have "fst ` set t = fst ` set (db w) \<union> set (batch w)"
    using i executemany_Ignore_keys [of clock "db w" "batch w" t]
    by (simp add: insert_batch_def)
  with w1 show ?thesis by simp
qed

lemma db_insert_batch_raises:
  "db_insert_batch w = Inl (e, w1) \<Longrightarrow>
     db w1 = db w \<and> batch w1 = batch w \<and> dequeued w1 = dequeued w
     \<and> errors w1 = errors w \<and> cancel_after w1 = cancel_after w"
  by (auto simp: db_insert_batch_def split: flush_result.splits sum.splits)

lemma fill_kept:
  "kept w \<Longrightarrow> (case fill bs w of Inl (e, w1) \<Rightarrow> kept w1 | Inr w1 \<Rightarrow> kept w1)"
proof (induction bs w rule: fill.induct)
  case (1 bs w)
  show ?case
  proof (cases "length (batch w) < bs")
    case False
    with "1.prems" show ?thesis by (subst fill.simps) simp
  next
    case True
    show ?thesis
    proof (cases "shd (gets w)")
      case (GetRaises e)
      with True "1.prems" show ?thesis
        by (subst fill.simps) (simp add: queue_get_def kept_def)
    next
      case (Item pwd)
      let ?w = "w\<lparr>gets := stl (gets w), batch := batch w @ [pwd], dequeued := dequeued w @ [pwd]\<rparr>"
      have q: "queue_get w = (Item pwd, w\<lparr>gets := stl (gets w)\<rparr>)"
        using Item by (simp add: queue_get_def)
      have k: "kept ?w" using "1.prems" by (auto simp: kept_def)
      have "case fill bs ?w of Inl (e, w1) \<Rightarrow> kept w1 | Inr w1 \<Rightarrow> kept w1"
        using "1.IH" [OF True q [symmetric] refl] k by simp
      then show ?thesis
        using True q by (subst fill.simps) simp
    qed
  qed
qed

lemma try_body_kept:
  "kept w \<Longrightarrow> (case try_body bs w of Inl (e, w1) \<Rightarrow> kept w1 | Inr w1 \<Rightarrow> kept w1)"
  using fill_kept [of w bs]
  by (auto simp: try_body_def kept_def split: sum.splits
      dest!: db_insert_batch_keys db_insert_batch_raises)

lemma writer_is_set_kept:
  "kept w \<Longrightarrow> (case writer_is_set w of Inl (e, w1) \<Rightarrow> kept w1 | Inr (stop, w1) \<Rightarrow> kept w1)"
  by (auto simp: writer_is_set_def kept_def split: option.splits prod.splits)

lemma except_handler_kept:
  "kept w \<Longrightarrow> (case except_handler e w of Inl (e1, w1) \<Rightarrow> kept w1 | Inr w1 \<Rightarrow> kept w1)"
  using writer_is_set_kept [of w]
  by (auto simp: except_handler_def kept_def split: sum.splits)

lemma iteration_kept:
  assumes "kept w"
  shows "case iteration bs w of Inl (e1, w1) \<Rightarrow> kept w1 | Inr w1 \<Rightarrow> kept w1"
proof (cases "try_body bs w")
  case (Inl r)
  obtain e w1 where r: "r = (e, w1)" by (cases r)
  from try_body_kept [OF assms, of bs] Inl r have "kept w1" by simp
  from except_handler_kept [OF this, of e] Inl r show ?thesis by (simp add: iteration_def)
next
  case (Inr w1)
  with try_body_kept [OF assms, of bs] show ?thesis by (simp add: iteration_def)
qed

lemma loop_condition_kept:
  "kept w \<Longrightarrow> loop_condition w = Inr (go, w1) \<Longrightarrow> kept w1"
  by (auto simp: loop_condition_def writer_is_set_def output_queue_empty_def is_set_def kept_def
      split: option.splits nat.splits if_splits)

lemma while_running_kept:
  "kept w \<Longrightarrow> while_running bs fuel w = Some (Finished w1) \<Longrightarrow> kept w1"
proof (induction fuel arbitrary: w)
  case 0
  then show ?case by simp
next
  case (Suc fuel)
  from Suc.prems(2) obtain go w2 where l: "loop_condition w = Inr (go, w2)"
    by (auto split: sum.splits)
  have k: "kept w2" using loop_condition_kept [OF Suc.prems(1) l] .
  show ?case
  proof (cases go)
    case True
    with Suc.prems(2) l obtain w3 where i: "iteration bs w2 = Inr w3"
      and r: "while_running bs fuel w3 = Some (Finished w1)"
      by (auto split: sum.splits)
    from iteration_kept [OF k, of bs] i have "kept w3" by simp
    from Suc.IH [OF this r] show ?thesis .
  next
    case False
    with Suc.prems(2) l k show ?thesis by simp
  qed
qed

lemma final_flush_persists:
  "kept w \<Longrightarrow> final_flush w = Finished w1 \<Longrightarrow> set (dequeued w1) \<subseteq> fst ` set (db w1)"
  by (auto simp: final_flush_def kept_def split: if_splits sum.splits prod.splits
      dest!: db_insert_batch_keys)

text \<open>
  C5, amended. When the writer's loop exits and the final flush does not raise, every
  candidate the writer has dequeued is the key of a persisted row, whatever timeouts and
  failed flushes happened inside the loop.
\<close>

theorem writer_persists_dequeued:
  assumes "writer_process bs fuel cancel answers empties items commits t = Some (Finished w)"
  shows "set (dequeued w) \<subseteq> fst ` set (db w)"
proof -
  let ?w0 = "\<lparr>cancel_after = cancel, manager = answers, queue_empty = empties, gets = items,
           flushes = commits, db = t, batch = [], dequeued = [], errors = [], infos = []\<rparr>"
  from assms obtain w1 where r: "while_running bs fuel ?w0 = Some (Finished w1)"
    and f: "final_flush w1 = Finished w"
    by (auto simp: writer_process_def split: option.splits ending.splits)
  have "kept ?w0" by (simp add: kept_def)
  from final_flush_persists [OF while_running_kept [OF this r] f] show ?thesis .
qed


definition lost_batch :: writer where
  "lost_batch =
     \<lparr>cancel_after = 0, manager = sconst None, queue_empty = sconst True,
      gets = sconst (GetRaises Empty),
      flushes = sconst (FlushRaises (StoreError OperationalError)),
      db = [], batch = [''c@T1!''], dequeued = [''c@T1!''], errors = [], infos = []\<rparr>"

lemma fill_one_then_timeout:
  "fill 2 \<lparr>cancel_after = 0, manager = sconst None, queue_empty = sconst True,
           gets = Item ''c@T1!'' ## sconst (GetRaises Empty),
           flushes = sconst (FlushRaises (StoreError OperationalError)),
           db = [], batch = [], dequeued = [], errors = [], infos = []\<rparr>
     = Inl (Empty, lost_batch)"
  apply (subst fill.simps)
  apply (simp add: queue_get_def)
  apply (subst fill.simps)
  apply (simp add: queue_get_def lost_batch_def)
  done

text \<open>
  C5, as stated, fails. With batch size 2 the writer dequeues one candidate, the next
  \<open>get\<close> times out under cancellation and the loop exits on the empty queue. The final
  flush raises: the process aborts and the dequeued candidate is in no row.
\<close>

theorem writer_final_flush_drops:
  "writer_process 2 3 1 (sconst None) (sconst True)
       (Item ''c@T1!'' ## sconst (GetRaises Empty))
       (sconst (FlushRaises (StoreError OperationalError))) []
     = Some (Aborted (StoreError OperationalError) lost_batch)
   \<and> dequeued lost_batch = [''c@T1!''] \<and> db lost_batch = []"
proof -
  have "writer_process 2 (Suc (Suc (Suc 0))) 1 (sconst None) (sconst True)
          (Item ''c@T1!'' ## sconst (GetRaises Empty))
          (sconst (FlushRaises (StoreError OperationalError))) []
        = Some (Aborted (StoreError OperationalError) lost_batch)"
    by (simp add: writer_process_def loop_condition_def writer_is_set_def is_set_def
        output_queue_empty_def iteration_def try_body_def fill_one_then_timeout
        except_handler_def final_flush_def db_insert_batch_def lost_batch_def)
  then show ?thesis by (simp add: lost_batch_def numeral_3_eq_3)
qed

definition flushed_at_exit :: writer where
  "flushed_at_exit =
     \<lparr>cancel_after = 0, manager = sconst None, queue_empty = sconst True,
      gets = sconst (GetRaises Empty), flushes = sconst (Commits (\<lambda>i. 7)),
      db = [(''c@T1!'', 7)], batch = [''c@T1!''], dequeued = [''c@T1!''], errors = [],
      infos = []\<rparr>"

lemma fill_one_then_timeout_commits:
  "fill 2 \<lparr>cancel_after = 0, manager = sconst None, queue_empty = sconst True,
           gets = Item ''c@T1!'' ## sconst (GetRaises Empty),
           flushes = sconst (Commits (\<lambda>i. 7)),
           db = [], batch = [], dequeued = [], errors = [], infos = []\<rparr>
     = Inl (Empty, flushed_at_exit\<lparr>db := []\<rparr>)"
  apply (subst fill.simps)
  apply (simp add: queue_get_def)
  apply (subst fill.simps)
  apply (simp add: queue_get_def flushed_at_exit_def)
  done

theorem writer_persists_dequeued_witness:
  "writer_process 2 3 1 (sconst None) (sconst True)
       (Item ''c@T1!'' ## sconst (GetRaises Empty))
       (sconst (Commits (\<lambda>i. 7))) [] = Some (Finished flushed_at_exit)
   \<and> set (dequeued flushed_at_exit) \<subseteq> fst ` set (db flushed_at_exit)"
proof -
  have "writer_process 2 (Suc (Suc (Suc 0))) 1 (sconst None) (sconst True)
          (Item ''c@T1!'' ## sconst (GetRaises Empty)) (sconst (Commits (\<lambda>i. 7))) []
        = Some (Finished flushed_at_exit)"
    by (simp add: writer_process_def loop_condition_def writer_is_set_def is_set_def
        output_queue_empty_def iteration_def try_body_def fill_one_then_timeout_commits
        except_handler_def final_flush_def db_insert_batch_def insert_batch_def sql_insert_def
        select_where_def flushed_at_exit_def)
  then have r: "writer_process 2 3 1 (sconst None) (sconst True)
          (Item ''c@T1!'' ## sconst (GetRaises Empty)) (sconst (Commits (\<lambda>i. 7))) []
        = Some (Finished flushed_at_exit)"
    by (simp add: numeral_3_eq_3)
  from writer_persists_dequeued [OF r] r show ?thesis by simp
qed

subsection \<open>What the calls of the loop leave untouched\<close>

definition left_by :: "(exn \<times> writer) + writer \<Rightarrow> writer" where
  "left_by r = (case r of Inl (e, w) \<Rightarrow> w | Inr w \<Rightarrow> w)"

lemma fill_env:
  "cancel_after (left_by (fill bs w)) = cancel_after w
   \<and> manager (left_by (fill bs w)) = manager w
   \<and> queue_empty (left_by (fill bs w)) = queue_empty w
   \<and> errors (left_by (fill bs w)) = errors w"
proof (induction bs w rule: fill.induct)
  case (1 bs w)
  show ?case
  proof (cases "length (batch w) < bs")
    case False
    then show ?thesis by (subst (1 2 3 4) fill.simps) (simp add: left_by_def)
  next
    case True
    show ?thesis
    proof (cases "shd (gets w)")
      case (GetRaises e)
      with True show ?thesis
        by (subst (1 2 3 4) fill.simps) (simp add: queue_get_def left_by_def)
    next
      case (Item pwd)
      have q: "queue_get w = (Item pwd, w\<lparr>gets := stl (gets w)\<rparr>)"
        using Item by (simp add: queue_get_def)
      from "1.IH" [OF True q [symmetric] refl] True q show ?thesis
        by (subst (1 2 3 4) fill.simps) simp
    qed
  qed
qed

lemma try_body_env:
  "cancel_after (left_by (try_body bs w)) = cancel_after w
   \<and> manager (left_by (try_body bs w)) = manager w
   \<and> queue_empty (left_by (try_body bs w)) = queue_empty w
   \<and> errors (left_by (try_body bs w)) = errors w"
proof (cases "fill bs w")
  case (Inl r)
  with fill_env [of bs w] show ?thesis
    by (cases r) (simp add: left_by_def try_body_def)
next
  case (Inr w1)
  with fill_env [of bs w] show ?thesis
    by (auto simp: left_by_def try_body_def db_insert_batch_def
        split: flush_result.splits sum.splits)
qed

subsection \<open>Failures inside the loop\<close>

text \<open>
  Whatever \<open>get\<close> or \<open>insert_batch\<close> raises inside the \<open>try\<close> reaches the handler. If the
  handler's poll of the flag is answered, the iteration ends normally; the error is logged
  if the poll saw the flag unset, and passed over in silence if it saw the flag set.
\<close>

lemma iteration_failure:
  assumes "try_body bs w = Inl (e, w1)" and "writer_is_set w1 = Inr (stop, w2)"
  shows "\<exists>w3. iteration bs w = Inr w3
           \<and> errors w3 = (if stop then errors w else errors w @ [e])
           \<and> batch w3 = batch w1 \<and> dequeued w3 = dequeued w1 \<and> db w3 = db w1"
proof -
  have "errors w1 = errors w"
    using try_body_env [of bs w] assms(1) by (simp add: left_by_def)
  moreover have "errors w2 = errors w1 \<and> batch w2 = batch w1 \<and> dequeued w2 = dequeued w1
      \<and> db w2 = db w1"
    using assms(2) by (auto simp: writer_is_set_def split: option.splits prod.splits)
  ultimately show ?thesis
    using assms by (simp add: iteration_def except_handler_def)
qed

lemma iteration_handler_raises:
  assumes "try_body bs w = Inl (e, w1)" and "writer_is_set w1 = Inl raised"
  shows "iteration bs w = Inl raised"
  using assms by (simp add: iteration_def except_handler_def)

lemma fill_full: "\<not> length (batch w) < bs \<Longrightarrow> fill bs w = Inr w"
  by (subst fill.simps) simp

lemma fill_items:
  "length (batch w) + length its \<le> bs \<Longrightarrow> gets w = map Item its @- g \<Longrightarrow>
     fill bs w = fill bs (w\<lparr>gets := g, batch := batch w @ its, dequeued := dequeued w @ its\<rparr>)"
proof (induction its arbitrary: w)
  case Nil
  then have "w\<lparr>gets := g, batch := batch w @ [], dequeued := dequeued w @ []\<rparr> = w"
    by (cases w) simp
  then show ?case by simp
next
  case (Cons p its)
  let ?w = "w\<lparr>gets := map Item its @- g, batch := batch w @ [p], dequeued := dequeued w @ [p]\<rparr>"
  have "fill bs w = fill bs ?w"
    using Cons.prems by (subst fill.simps) (simp add: queue_get_def)
  also have "\<dots> = fill bs (?w\<lparr>gets := g, batch := batch ?w @ its, dequeued := dequeued ?w @ its\<rparr>)"
    using Cons.prems by (intro Cons.IH) simp_all
  finally show ?case by simp
qed

lemma try_body_get_raises:
  assumes "length (batch w) + length its < bs"
    and "gets w = map Item its @- (GetRaises e ## g)"
  shows "try_body bs w
           = Inl (e, w\<lparr>gets := g, batch := batch w @ its, dequeued := dequeued w @ its\<rparr>)"
proof -
  let ?w = "w\<lparr>gets := GetRaises e ## g, batch := batch w @ its, dequeued := dequeued w @ its\<rparr>"
  have "fill bs w = fill bs ?w"
    using assms by (intro fill_items) simp_all
  also have "\<dots> = Inl (e, ?w\<lparr>gets := g\<rparr>)"
    using assms(1) by (subst fill.simps) (simp add: queue_get_def)
  finally show ?thesis by (simp add: try_body_def)
qed

lemma try_body_flush_raises:
  assumes "length (batch w) + length its = bs" and "gets w = map Item its @- g"
    and "flushes w = FlushRaises e ## f"
  shows "try_body bs w
           = Inl (e, w\<lparr>gets := g, flushes := f, batch := batch w @ its,
                      dequeued := dequeued w @ its\<rparr>)"
proof -
  let ?w = "w\<lparr>gets := g, batch := batch w @ its, dequeued := dequeued w @ its\<rparr>"
  have "fill bs w = fill bs ?w"
    using assms by (intro fill_items) simp_all
  also have "\<dots> = Inr ?w"
    using assms(1) by (intro fill_full) simp
  finally show ?thesis
    using assms(3) by (simp add: try_body_def db_insert_batch_def)
qed

lemma try_body_commits:
  assumes "length (batch w) + length its = bs" and "gets w = map Item its @- g"
    and "flushes w = Commits clock ## f"
  shows "\<exists>t. insert_batch clock (db w) (batch w @ its) = Inr t
           \<and> try_body bs w
               = Inr (w\<lparr>gets := g, flushes := f, db := t, batch := [],
                        dequeued := dequeued w @ its, infos := infos w @ [bs]\<rparr>)"
proof -
  let ?w = "w\<lparr>gets := g, batch := batch w @ its, dequeued := dequeued w @ its\<rparr>"
  obtain new where t: "insert_batch clock (db w) (batch w @ its) = Inr (db w @ new)"
    using insert_batch_extends [of clock "db w" "batch w @ its"] by blast
  have "fill bs w = fill bs ?w"
    using assms by (intro fill_items) simp_all
  also have "\<dots> = Inr ?w"
    using assms(1) by (intro fill_full) simp
  finally have "try_body bs w
      = Inr (w\<lparr>gets := g, flushes := f, db := db w @ new, batch := [],
               dequeued := dequeued w @ its, infos := infos w @ [bs]\<rparr>)"
    using assms(1,3) t by (simp add: try_body_def db_insert_batch_def)
  with t show ?thesis by blast
qed

subsection \<open>While the manager answers\<close>

lemma writer_is_set_answered:
  "manager w = always None \<Longrightarrow>
     writer_is_set w = Inr (cancel_after w = 0, w\<lparr>cancel_after := cancel_after w - 1\<rparr>)"
  by (cases w; cases "cancel_after w")
    (simp_all add: writer_is_set_def is_set_def shd_always stl_always)

lemma output_queue_empty_answered:
  "manager w = always None \<Longrightarrow>
     output_queue_empty w
       = Inr (shd (queue_empty w), w\<lparr>queue_empty := stl (queue_empty w)\<rparr>)"
  by (cases w) (simp add: output_queue_empty_def shd_always stl_always)

lemma loop_condition_unset:
  "manager w = always None \<Longrightarrow> cancel_after w = Suc n \<Longrightarrow>
     loop_condition w = Inr (True, w\<lparr>cancel_after := n\<rparr>)"
  by (simp add: loop_condition_def writer_is_set_answered)

lemma loop_condition_set:
  "manager w = always None \<Longrightarrow> cancel_after w = 0 \<Longrightarrow>
     loop_condition w
       = Inr (\<not> shd (queue_empty w), w\<lparr>queue_empty := stl (queue_empty w)\<rparr>)"
proof -
  assume m: "manager w = always None" and c: "cancel_after w = 0"
  then have "w\<lparr>cancel_after := 0\<rparr> = w" by (cases w) simp
  with m c show ?thesis
    by (simp add: loop_condition_def writer_is_set_answered output_queue_empty_answered)
qed

lemma iteration_answered:
  assumes "manager w = always None"
  shows "\<exists>w1. iteration bs w = Inr w1 \<and> manager w1 = always None
           \<and> cancel_after w1 \<le> cancel_after w \<and> queue_empty w1 = queue_empty w"
proof (cases "try_body bs w")
  case (Inl r)
  obtain e w1 where r: "r = (e, w1)" by (cases r)
  from try_body_env [of bs w] Inl r assms
  have e: "manager w1 = always None" "cancel_after w1 = cancel_after w"
    "queue_empty w1 = queue_empty w"
    by (simp_all add: left_by_def)
  from Inl r e show ?thesis
    by (simp add: iteration_def except_handler_def writer_is_set_answered)
next
  case (Inr w1)
  with try_body_env [of bs w] assms show ?thesis
    by (simp add: iteration_def left_by_def)
qed

text \<open>
  The loop leaves only by its test: once the flag is set and the queue has reported empty,
  whatever \<open>get\<close> and \<open>insert_batch\<close> have raised on the way.
\<close>

lemma while_running_exits:
  "manager w = always None \<Longrightarrow> queue_empty w = drained @- always True \<Longrightarrow>
   cancel_after w + length drained < fuel \<Longrightarrow>
     \<exists>w1. while_running bs fuel w = Some (Finished w1) \<and> cancel_after w1 = 0
          \<and> queue_empty w1 = stl (sdrop_while Not (queue_empty w))"
proof (induction fuel arbitrary: w drained)
  case 0
  then show ?case by simp
next
  case (Suc fuel)
  note prems = Suc.prems and IH = Suc.IH
  note s = sdrop_while.simps [of Not "queue_empty w"]
  show ?case
  proof (cases "cancel_after w")
    case (Suc k)
    let ?w = "w\<lparr>cancel_after := k\<rparr>"
    have l: "loop_condition w = Inr (True, ?w)"
      using prems(1) Suc by (rule loop_condition_unset)
    have "manager ?w = always None" using prems(1) by simp
    from iteration_answered [OF this, of bs] obtain w2
      where i: "iteration bs ?w = Inr w2" and m: "manager w2 = always None"
        and c: "cancel_after w2 \<le> k" and q: "queue_empty w2 = queue_empty w"
      by auto
    have q2: "queue_empty w2 = drained @- always True" using q prems(2) by simp
    have "cancel_after w2 + length drained < fuel" using c prems(3) Suc by simp
    from IH [OF m q2 this] q l i show ?thesis by simp
  next
    case 0
    note l = loop_condition_set [OF prems(1) 0]
    show ?thesis
    proof (cases "shd (queue_empty w)")
      case True
      then have "sdrop_while Not (queue_empty w) = queue_empty w" using s by simp
      with True l 0 show ?thesis by simp
    next
      case False
      with prems(2) obtain ds where d: "drained = False # ds"
        by (cases drained) (auto simp: shd_always)
      let ?w = "w\<lparr>queue_empty := stl (queue_empty w)\<rparr>"
      have "manager ?w = always None" using prems(1) by simp
      from iteration_answered [OF this, of bs] obtain w2
        where i: "iteration bs ?w = Inr w2" and m: "manager w2 = always None"
          and c: "cancel_after w2 \<le> cancel_after w"
          and q: "queue_empty w2 = stl (queue_empty w)"
        by auto
      have q2: "queue_empty w2 = ds @- always True" using q prems(2) d by simp
      have "cancel_after w2 + length ds < fuel" using c prems(3) 0 d by simp
      moreover have "sdrop_while Not (queue_empty w) = sdrop_while Not (stl (queue_empty w))"
        using s False by simp
      ultimately show ?thesis
        using IH [OF m q2] q l False i by simp
    qed
  qed
qed

text \<open>
  The loop aborts only on an exception of a proxy call, at the loop test or in the
  handler.
\<close>

lemma writer_is_set_manager:
  "case writer_is_set w of
     Inl (e, w1) \<Rightarrow> Some e \<in> sset (manager w)
   | Inr (stop, w1) \<Rightarrow> sset (manager w1) \<subseteq> sset (manager w)"
  using shd_sset [of "manager w"] stl_sset [of _ "manager w"]
  by (auto simp: writer_is_set_def split: option.splits prod.splits)

lemma output_queue_empty_manager:
  "case output_queue_empty w of
     Inl (e, w1) \<Rightarrow> Some e \<in> sset (manager w)
   | Inr (drained, w1) \<Rightarrow> sset (manager w1) \<subseteq> sset (manager w)"
  using shd_sset [of "manager w"] stl_sset [of _ "manager w"]
  by (auto simp: output_queue_empty_def split: option.splits)

lemma loop_condition_manager:
  "case loop_condition w of
     Inl (e, w1) \<Rightarrow> Some e \<in> sset (manager w)
   | Inr (go, w1) \<Rightarrow> sset (manager w1) \<subseteq> sset (manager w)"
proof (cases "writer_is_set w")
  case (Inl r)
  with writer_is_set_manager [of w] show ?thesis
    by (cases r) (simp add: loop_condition_def)
next
  case (Inr r)
  obtain stop w1 where r: "r = (stop, w1)" by (cases r)
  with Inr writer_is_set_manager [of w] have s: "sset (manager w1) \<subseteq> sset (manager w)"
    by simp
  show ?thesis
  proof (cases stop)
    case False
    with Inr r s show ?thesis by (simp add: loop_condition_def)
  next
    case True
    with Inr r s output_queue_empty_manager [of w1] show ?thesis
      by (cases "output_queue_empty w1") (auto simp: loop_condition_def)
  qed
qed

lemma iteration_manager:
  "case iteration bs w of
     Inl (e, w1) \<Rightarrow> Some e \<in> sset (manager w)
   | Inr w1 \<Rightarrow> sset (manager w1) \<subseteq> sset (manager w)"
proof (cases "try_body bs w")
  case (Inl r)
  obtain e w1 where r: "r = (e, w1)" by (cases r)
  with Inl try_body_env [of bs w] have "manager w1 = manager w" by (simp add: left_by_def)
  with Inl r writer_is_set_manager [of w1] show ?thesis
    by (cases "writer_is_set w1") (auto simp: iteration_def except_handler_def)
next
  case (Inr w1)
  with try_body_env [of bs w] show ?thesis by (simp add: iteration_def left_by_def)
qed

lemma while_running_aborts:
  "while_running bs fuel w = Some (Aborted e w1) \<Longrightarrow> Some e \<in> sset (manager w)"
proof (induction fuel arbitrary: w)
  case 0
  then show ?case by simp
next
  case (Suc fuel)
  show ?case
  proof (cases "loop_condition w")
    case (Inl r)
    with Suc.prems loop_condition_manager [of w] show ?thesis
      by (cases r) simp
  next
    case (Inr r)
    obtain go w2 where r: "r = (go, w2)" by (cases r)
    with Inr loop_condition_manager [of w] have s: "sset (manager w2) \<subseteq> sset (manager w)"
      by simp
    show ?thesis
    proof (cases go)
      case False
      with Suc.prems Inr r show ?thesis by simp
    next
      case True
      show ?thesis
      proof (cases "iteration bs w2")
        case (Inl q)
        with Suc.prems Inr r True iteration_manager [of w2 bs] s show ?thesis
          by (cases q) auto
      next
        case (Inr w3)
        with Suc.prems \<open>loop_condition w = Inr r\<close> r True
        have "while_running bs fuel w3 = Some (Aborted e w1)" by simp
        from Suc.IH [OF this] Inr iteration_manager [of w2 bs] s show ?thesis by auto
      qed
    qed
  qed
qed

lemma writer_process_aborts:
  assumes "writer_process bs fuel cancel answers empties items commits t = Some (Aborted e w)"
  shows "Some e \<in> sset answers \<or> (\<exists>w1. batch w1 \<noteq> [] \<and> db_insert_batch w1 = Inl (e, w))"
proof -
  let ?w0 = "\<lparr>cancel_after = cancel, manager = answers, queue_empty = empties, gets = items,
           flushes = commits, db = t, batch = [], dequeued = [], errors = [], infos = []\<rparr>"
  from assms consider "while_running bs fuel ?w0 = Some (Aborted e w)"
    | w1 where "final_flush w1 = Aborted e w"
    by (auto simp: writer_process_def split: option.splits ending.splits)
  then show ?thesis
  proof cases
    case 1
    from while_running_aborts [OF this] show ?thesis by simp
  next
    case 2
    then show ?thesis
      by (auto simp: final_flush_def split: if_splits sum.splits prod.splits)
  qed
qed

subsection \<open>Logged and tried again\<close>

text \<open>
  A pass of the loop whose body raises while both its polls see the flag unset: the error
  is logged and the loop is back at its test.
\<close>

lemma failed_pass:
  assumes "manager w = always None" and "cancel_after w = Suc (Suc n)"
    and "try_body bs (w\<lparr>cancel_after := Suc n\<rparr>) = Inl (e, w1)"
  shows "while_running bs (Suc fuel) w
           = while_running bs fuel (w1\<lparr>cancel_after := n, errors := errors w1 @ [e]\<rparr>)"
proof -
  have l: "loop_condition w = Inr (True, w\<lparr>cancel_after := Suc n\<rparr>)"
    using assms(1,2) by (rule loop_condition_unset)
  have "manager w1 = always None" and "cancel_after w1 = Suc n"
    using try_body_env [of bs "w\<lparr>cancel_after := Suc n\<rparr>"] assms(1,3)
    by (simp_all add: left_by_def)
  then have "iteration bs (w\<lparr>cancel_after := Suc n\<rparr>)
      = Inr (w1\<lparr>cancel_after := n, errors := errors w1 @ [e]\<rparr>)"
    using assms(3) by (simp add: iteration_def except_handler_def writer_is_set_answered)
  with l show ?thesis by simp
qed

lemma loop_get_failures:
  assumes "manager w = always None" and "cancel_after w = 2 * j + c"
    and "gets w = replicate j (GetRaises e) @- g" and "length (batch w) < bs"
  shows "while_running bs (j + fuel) w
           = while_running bs fuel
               (w\<lparr>cancel_after := c, gets := g, errors := errors w @ replicate j e\<rparr>)"
  using assms
proof (induction j arbitrary: w)
  case 0
  then have "w\<lparr>cancel_after := c, gets := g, errors := errors w @ replicate 0 e\<rparr> = w"
    by (cases w) simp
  then show ?case by simp
next
  case (Suc j)
  let ?G = "replicate j (GetRaises e) @- g"
  let ?w1 = "w\<lparr>cancel_after := Suc (2 * j + c)\<rparr>"
  let ?w2 = "w\<lparr>cancel_after := 2 * j + c, gets := ?G, errors := errors w @ [e]\<rparr>"
  have "try_body bs ?w1
      = Inl (e, ?w1\<lparr>gets := ?G, batch := batch ?w1 @ [], dequeued := dequeued ?w1 @ []\<rparr>)"
    using Suc.prems by (intro try_body_get_raises) simp_all
  moreover have "?w1\<lparr>gets := ?G, batch := batch ?w1 @ [], dequeued := dequeued ?w1 @ []\<rparr>
      = ?w1\<lparr>gets := ?G\<rparr>"
    by (cases w) simp
  ultimately have t: "try_body bs ?w1 = Inl (e, ?w1\<lparr>gets := ?G\<rparr>)"
    by simp
  have "while_running bs (Suc (j + fuel)) w
      = while_running bs (j + fuel)
          ((?w1\<lparr>gets := ?G\<rparr>)\<lparr>cancel_after := 2 * j + c,
               errors := errors (?w1\<lparr>gets := ?G\<rparr>) @ [e]\<rparr>)"
    by (rule failed_pass [OF Suc.prems(1) _ t]) (use Suc.prems(2) in simp)
  also have "(?w1\<lparr>gets := ?G\<rparr>)\<lparr>cancel_after := 2 * j + c,
               errors := errors (?w1\<lparr>gets := ?G\<rparr>) @ [e]\<rparr> = ?w2"
    by (cases w) simp
  also have "while_running bs (j + fuel) ?w2 = while_running bs fuel
      (?w2\<lparr>cancel_after := c, gets := g, errors := errors ?w2 @ replicate j e\<rparr>)"
    using Suc.prems by (intro Suc.IH) simp_all
  also have "?w2\<lparr>cancel_after := c, gets := g, errors := errors ?w2 @ replicate j e\<rparr>
      = w\<lparr>cancel_after := c, gets := g, errors := errors w @ replicate (Suc j) e\<rparr>"
    by (cases w) simp
  finally show ?case by simp
qed

lemma loop_flush_failures:
  assumes "manager w = always None" and "cancel_after w = 2 * k + c"
    and "flushes w = replicate k (FlushRaises e) @- f" and "length (batch w) = bs"
  shows "while_running bs (k + fuel) w
           = while_running bs fuel
               (w\<lparr>cancel_after := c, flushes := f, errors := errors w @ replicate k e\<rparr>)"
  using assms
proof (induction k arbitrary: w)
  case 0
  then have "w\<lparr>cancel_after := c, flushes := f, errors := errors w @ replicate 0 e\<rparr> = w"
    by (cases w) simp
  then show ?case by simp
next
  case (Suc k)
  let ?F = "replicate k (FlushRaises e) @- f"
  let ?w1 = "w\<lparr>cancel_after := Suc (2 * k + c)\<rparr>"
  let ?w2 = "w\<lparr>cancel_after := 2 * k + c, flushes := ?F, errors := errors w @ [e]\<rparr>"
  have "try_body bs ?w1
      = Inl (e, ?w1\<lparr>gets := gets ?w1, flushes := ?F, batch := batch ?w1 @ [],
                     dequeued := dequeued ?w1 @ []\<rparr>)"
    using Suc.prems
    by (intro try_body_flush_raises [where its = "[]"]) simp_all
  moreover have "?w1\<lparr>gets := gets ?w1, flushes := ?F, batch := batch ?w1 @ [],
                     dequeued := dequeued ?w1 @ []\<rparr> = ?w1\<lparr>flushes := ?F\<rparr>"
    by (cases w) simp
  ultimately have t: "try_body bs ?w1 = Inl (e, ?w1\<lparr>flushes := ?F\<rparr>)"
    by simp
  have "while_running bs (Suc (k + fuel)) w
      = while_running bs (k + fuel)
          ((?w1\<lparr>flushes := ?F\<rparr>)\<lparr>cancel_after := 2 * k + c,
               errors := errors (?w1\<lparr>flushes := ?F\<rparr>) @ [e]\<rparr>)"
    by (rule failed_pass [OF Suc.prems(1) _ t]) (use Suc.prems(2) in simp)
  also have "(?w1\<lparr>flushes := ?F\<rparr>)\<lparr>cancel_after := 2 * k + c,
               errors := errors (?w1\<lparr>flushes := ?F\<rparr>) @ [e]\<rparr> = ?w2"
    by (cases w) simp
  also have "while_running bs (k + fuel) ?w2 = while_running bs fuel
      (?w2\<lparr>cancel_after := c, flushes := f, errors := errors ?w2 @ replicate k e\<rparr>)"
    using Suc.prems by (intro Suc.IH) simp_all
  also have "?w2\<lparr>cancel_after := c, flushes := f, errors := errors ?w2 @ replicate k e\<rparr>
      = w\<lparr>cancel_after := c, flushes := f, errors := errors w @ replicate (Suc k) e\<rparr>"
    by (cases w) simp
  finally show ?case by simp
qed

text \<open>What a pass dequeues first may as well be in the batch before the pass.\<close>

lemma loop_prefill:
  assumes "manager w = always None" and "cancel_after w = Suc n"
    and "gets w = map Item its @- g" and "length (batch w) + length its \<le> bs"
  shows "while_running bs (Suc fuel) w
           = while_running bs (Suc fuel)
               (w\<lparr>gets := g, batch := batch w @ its, dequeued := dequeued w @ its\<rparr>)"
proof -
  let ?v = "w\<lparr>gets := g, batch := batch w @ its, dequeued := dequeued w @ its\<rparr>"
  let ?w1 = "w\<lparr>cancel_after := n\<rparr>"
  have "fill bs ?w1
      = fill bs (?w1\<lparr>gets := g, batch := batch ?w1 @ its, dequeued := dequeued ?w1 @ its\<rparr>)"
    using assms(3,4) by (intro fill_items) simp_all
  also have "?w1\<lparr>gets := g, batch := batch ?w1 @ its, dequeued := dequeued ?w1 @ its\<rparr>
      = ?v\<lparr>cancel_after := n\<rparr>"
    by (cases w) simp
  finally have "iteration bs ?w1 = iteration bs (?v\<lparr>cancel_after := n\<rparr>)"
    by (simp add: iteration_def try_body_def)
  moreover have "loop_condition w = Inr (True, ?w1)"
    using assms(1,2) by (rule loop_condition_unset)
  moreover have "loop_condition ?v = Inr (True, ?v\<lparr>cancel_after := n\<rparr>)"
    using assms(1,2) by (intro loop_condition_unset) simp_all
  ultimately show ?thesis by simp
qed

lemma loop_commit_exit:
  assumes "manager w = always None" and "cancel_after w = Suc 0"
    and "length (batch w) = bs" and "flushes w = Commits clock ## f"
    and "queue_empty w = True ## es"
  shows "\<exists>t. insert_batch clock (db w) (batch w) = Inr t
           \<and> while_running bs (Suc (Suc fuel)) w
               = Some (Finished (w\<lparr>cancel_after := 0, queue_empty := es, flushes := f, db := t,
                                   batch := [], infos := infos w @ [bs]\<rparr>))"
proof -
  let ?w1 = "w\<lparr>cancel_after := 0\<rparr>"
  have l: "loop_condition w = Inr (True, ?w1)"
    using assms(1,2) by (rule loop_condition_unset)
  have "\<exists>t. insert_batch clock (db ?w1) (batch ?w1 @ []) = Inr t
           \<and> try_body bs ?w1
               = Inr (?w1\<lparr>gets := gets ?w1, flushes := f, db := t, batch := [],
                        dequeued := dequeued ?w1 @ [], infos := infos ?w1 @ [bs]\<rparr>)"
    using assms by (intro try_body_commits) simp_all
  then obtain t where t: "insert_batch clock (db w) (batch w) = Inr t"
    and b: "try_body bs ?w1
      = Inr (?w1\<lparr>gets := gets ?w1, flushes := f, db := t, batch := [],
                        dequeued := dequeued ?w1 @ [], infos := infos ?w1 @ [bs]\<rparr>)"
    by auto
  let ?w2 = "w\<lparr>cancel_after := 0, flushes := f, db := t, batch := [], infos := infos w @ [bs]\<rparr>"
  have "?w1\<lparr>gets := gets ?w1, flushes := f, db := t, batch := [],
                        dequeued := dequeued ?w1 @ [], infos := infos ?w1 @ [bs]\<rparr> = ?w2"
    by (cases w) simp
  with b have i: "iteration bs ?w1 = Inr ?w2" by (simp add: iteration_def)
  have "loop_condition ?w2
      = Inr (\<not> shd (queue_empty ?w2), ?w2\<lparr>queue_empty := stl (queue_empty ?w2)\<rparr>)"
    using assms(1) by (intro loop_condition_set) simp_all
  moreover have "?w2\<lparr>queue_empty := stl (queue_empty ?w2)\<rparr>
      = w\<lparr>cancel_after := 0, queue_empty := es, flushes := f, db := t,
           batch := [], infos := infos w @ [bs]\<rparr>"
    using assms(5) by (cases w) simp
  ultimately have "loop_condition ?w2
      = Inr (False, w\<lparr>cancel_after := 0, queue_empty := es, flushes := f, db := t,
                       batch := [], infos := infos w @ [bs]\<rparr>)"
    using assms(5) by simp
  with l i t show ?thesis by simp
qed

text \<open>
  A run in full. The first \<open>j\<close> calls of \<open>get\<close> raise, then the queue delivers a batch, the
  first \<open>k\<close> flushes of it raise and the next one commits; cancellation comes right after,
  on an empty queue. Every one of the \<open>j + k\<close> failures is logged, none ends the writer,
  and the batch that failed \<open>k\<close> times is in the table.
\<close>

lemma writer_retries_until_commit:
  assumes "0 < bs" and "length its = bs"
  shows "\<exists>w. writer_process bs (j + k + 2 + fuel) (2 * (j + k) + 1) (sconst None) (True ## es)
                (replicate j (GetRaises e1) @- (map Item its @- g))
                (replicate k (FlushRaises e2) @- (Commits clock ## f)) t
              = Some (Finished w)
           \<and> errors w = replicate j e1 @ replicate k e2
           \<and> fst ` set (db w) = fst ` set t \<union> set its
           \<and> dequeued w = its \<and> batch w = [] \<and> infos w = [bs]"
proof -
  let ?w0 = "\<lparr>cancel_after = 2 * (j + k) + 1, manager = always None, queue_empty = True ## es,
      gets = replicate j (GetRaises e1) @- (map Item its @- g),
      flushes = replicate k (FlushRaises e2) @- (Commits clock ## f),
      db = t, batch = [], dequeued = [], errors = [], infos = []\<rparr>"
  let ?wa = "?w0\<lparr>cancel_after := 2 * k + 1, gets := map Item its @- g,
      errors := replicate j e1\<rparr>"
  let ?wb = "?wa\<lparr>gets := g, batch := its, dequeued := its\<rparr>"
  let ?wc = "?wb\<lparr>cancel_after := Suc 0, flushes := Commits clock ## f,
      errors := replicate j e1 @ replicate k e2\<rparr>"
  have "while_running bs (j + (k + 2 + fuel)) ?w0
      = while_running bs (k + 2 + fuel)
          (?w0\<lparr>cancel_after := 2 * k + 1, gets := map Item its @- g,
                errors := errors ?w0 @ replicate j e1\<rparr>)"
    using assms(1) by (intro loop_get_failures) simp_all
  then have a: "while_running bs (j + (k + 2 + fuel)) ?w0
      = while_running bs (Suc (k + Suc fuel)) ?wa"
    by simp
  have "while_running bs (Suc (k + Suc fuel)) ?wa
      = while_running bs (Suc (k + Suc fuel))
          (?wa\<lparr>gets := g, batch := batch ?wa @ its, dequeued := dequeued ?wa @ its\<rparr>)"
    using assms(2) by (intro loop_prefill [where n = "2 * k"]) simp_all
  then have b: "while_running bs (Suc (k + Suc fuel)) ?wa
      = while_running bs (k + Suc (Suc fuel)) ?wb"
    by simp
  have "while_running bs (k + Suc (Suc fuel)) ?wb
      = while_running bs (Suc (Suc fuel))
          (?wb\<lparr>cancel_after := Suc 0, flushes := Commits clock ## f,
                errors := errors ?wb @ replicate k e2\<rparr>)"
    using assms(2) by (intro loop_flush_failures) simp_all
  then have c: "while_running bs (k + Suc (Suc fuel)) ?wb
      = while_running bs (Suc (Suc fuel)) ?wc"
    by simp
  have "\<exists>t1. insert_batch clock (db ?wc) (batch ?wc) = Inr t1
           \<and> while_running bs (Suc (Suc fuel)) ?wc
               = Some (Finished (?wc\<lparr>cancel_after := 0, queue_empty := es, flushes := f,
                                     db := t1, batch := [], infos := infos ?wc @ [bs]\<rparr>))"
    using assms(2) by (intro loop_commit_exit) simp_all
  then obtain t1 where t1: "insert_batch clock t its = Inr t1"
    and d: "while_running bs (Suc (Suc fuel)) ?wc
      = Some (Finished (?wc\<lparr>cancel_after := 0, queue_empty := es, flushes := f,
                             db := t1, batch := [], infos := [bs]\<rparr>))"
    by auto
  have keys: "fst ` set t1 = fst ` set t \<union> set its"
    using t1 executemany_Ignore_keys [of clock t its t1] by (simp add: insert_batch_def)
  have "while_running bs (j + k + 2 + fuel) ?w0
      = Some (Finished (?wc\<lparr>cancel_after := 0, queue_empty := es, flushes := f,
                             db := t1, batch := [], infos := [bs]\<rparr>))"
    using a b c d by (simp add: add.assoc)
  then show ?thesis
    using keys by (simp add: writer_process_def final_flush_def always_def)
qed

lemma writer_process_exits:
  "cancel < fuel \<Longrightarrow>
     \<exists>r. writer_process bs fuel cancel (sconst None) (sconst True) items commits t = Some r"
proof -
  assume "cancel < fuel"
  then have "\<exists>w1. while_running bs fuel
      \<lparr>cancel_after = cancel, manager = sconst None, queue_empty = sconst True, gets = items,
       flushes = commits, db = t, batch = [], dequeued = [], errors = [], infos = []\<rparr>
        = Some (Finished w1)"
    using while_running_exits [where drained = "[]" and fuel = fuel and bs = bs and w =
      "\<lparr>cancel_after = cancel, manager = sconst None, queue_empty = sconst True, gets = items,
        flushes = commits, db = t, batch = [], dequeued = [], errors = [], infos = []\<rparr>"]
    by (auto simp: always_def)
  then show ?thesis by (auto simp: writer_process_def)
qed

subsection \<open>A failure that is not logged, and one that ends the writer\<close>

text \<open>
  The body is entered with two candidates waiting and a store that is down; cancellation
  is set while the body runs.
\<close>

definition store_gone :: writer where
  "store_gone =
     \<lparr>cancel_after = 0, manager = sconst None, queue_empty = sconst True,
      gets = Item ''c@T1!'' ## Item ''d0G7#'' ## sconst (GetRaises Empty),
      flushes = sconst (FlushRaises (StoreError OperationalError)),
      db = [], batch = [], dequeued = [], errors = [], infos = []\<rparr>"

definition unlogged :: writer where
  "unlogged =
     \<lparr>cancel_after = 0, manager = sconst None, queue_empty = sconst True,
      gets = sconst (GetRaises Empty),
      flushes = sconst (FlushRaises (StoreError OperationalError)),
      db = [], batch = [''c@T1!'', ''d0G7#''], dequeued = [''c@T1!'', ''d0G7#''],
      errors = [], infos = []\<rparr>"

lemma try_body_store_gone:
  "try_body 2 store_gone = Inl (StoreError OperationalError, unlogged)"
proof -
  have "fill 2 store_gone = Inr (unlogged\<lparr>flushes := flushes store_gone\<rparr>)"
    apply (subst fill.simps)
    apply (simp add: queue_get_def store_gone_def)
    apply (subst fill.simps)
    apply (simp add: queue_get_def)
    apply (subst fill.simps)
    apply (simp add: unlogged_def)
    done
  then show ?thesis
    by (simp add: try_body_def db_insert_batch_def store_gone_def unlogged_def)
qed

lemma iteration_store_gone: "iteration 2 store_gone = Inr unlogged"
  by (simp add: iteration_def try_body_store_gone except_handler_def writer_is_set_def
      is_set_def unlogged_def)

text \<open>
  C8, as stated, fails. With batch size 2 the writer dequeues two candidates and the flush
  raises inside the loop. The handler finds cancellation set and logs nothing; the loop
  exits on the empty queue without another pass; the final flush raises too and the
  process aborts with an empty error log.
\<close>

theorem writer_store_failure_not_logged:
  "try_body 2 store_gone = Inl (StoreError OperationalError, unlogged)
   \<and> iteration 2 store_gone = Inr unlogged
   \<and> errors unlogged = []
   \<and> writer_process 2 2 1 (sconst None) (sconst True)
         (Item ''c@T1!'' ## Item ''d0G7#'' ## sconst (GetRaises Empty))
         (sconst (FlushRaises (StoreError OperationalError))) []
       = Some (Aborted (StoreError OperationalError) unlogged)"
proof -
  have "\<lparr>cancel_after = 0, manager = sconst None, queue_empty = sconst True,
      gets = Item ''c@T1!'' ## Item ''d0G7#'' ## sconst (GetRaises Empty),
      flushes = sconst (FlushRaises (StoreError OperationalError)),
      db = [], batch = [], dequeued = [], errors = [], infos = []\<rparr> = store_gone"
    by (simp add: store_gone_def)
  then have "writer_process 2 (Suc (Suc 0)) 1 (sconst None) (sconst True)
         (Item ''c@T1!'' ## Item ''d0G7#'' ## sconst (GetRaises Empty))
         (sconst (FlushRaises (StoreError OperationalError))) []
       = Some (Aborted (StoreError OperationalError) unlogged)"
    by (simp add: writer_process_def loop_condition_def writer_is_set_def is_set_def
        iteration_store_gone)
      (simp add: unlogged_def loop_condition_def writer_is_set_def is_set_def
        output_queue_empty_def final_flush_def db_insert_batch_def)
  then have "writer_process 2 2 1 (sconst None) (sconst True)
         (Item ''c@T1!'' ## Item ''d0G7#'' ## sconst (GetRaises Empty))
         (sconst (FlushRaises (StoreError OperationalError))) []
       = Some (Aborted (StoreError OperationalError) unlogged)"
    by (simp add: numeral_2_eq_2)
  moreover have "errors unlogged = []" by (simp add: unlogged_def)
  ultimately show ?thesis
    using try_body_store_gone iteration_store_gone by simp
qed

text \<open>
  The handler's own poll is not protected: when the manager is gone, \<open>get\<close> raises, the
  handler's \<open>is_set\<close> raises in turn, and the writer aborts inside its loop.
\<close>

lemma writer_aborts_in_handler:
  assumes "0 < bs"
  shows "writer_process bs (Suc fuel) (Suc cancel) (None ## sconst (Some BrokenPipeError)) empties
       (sconst (GetRaises BrokenPipeError)) commits t
     = Some (Aborted BrokenPipeError
         \<lparr>cancel_after = cancel, manager = sconst (Some BrokenPipeError), queue_empty = empties,
          gets = sconst (GetRaises BrokenPipeError), flushes = commits, db = t, batch = [],
          dequeued = [], errors = [], infos = []\<rparr>)"
proof -
  let ?w = "\<lparr>cancel_after = cancel, manager = sconst (Some BrokenPipeError),
      queue_empty = empties, gets = sconst (GetRaises BrokenPipeError), flushes = commits,
      db = t, batch = [], dequeued = [], errors = [], infos = []\<rparr>"
  have "fill bs ?w = Inl (BrokenPipeError, ?w)"
    using assms by (subst fill.simps) (simp add: queue_get_def)
  then show ?thesis
    by (simp add: writer_process_def loop_condition_def writer_is_set_def is_set_def
        iteration_def try_body_def except_handler_def)
qed

subsection \<open>What holds of failures inside the loop\<close>

text \<open>The state in which the body is entered while the store is down for one flush.\<close>

definition store_down :: writer where
  "store_down =
     \<lparr>cancel_after = 1, manager = sconst None, queue_empty = sconst True,
      gets = Item ''c@T1!'' ## Item ''d0G7#'' ## sconst (GetRaises Empty),
      flushes = FlushRaises (StoreError OperationalError) ## sconst (Commits (\<lambda>i. 7)),
      db = [], batch = [], dequeued = [], errors = [], infos = []\<rparr>"

definition flush_failed :: writer where
  "flush_failed =
     \<lparr>cancel_after = 1, manager = sconst None, queue_empty = sconst True,
      gets = sconst (GetRaises Empty), flushes = sconst (Commits (\<lambda>i. 7)),
      db = [], batch = [''c@T1!'', ''d0G7#''], dequeued = [''c@T1!'', ''d0G7#''],
      errors = [], infos = []\<rparr>"

lemma try_body_store_down:
  "try_body 2 store_down = Inl (StoreError OperationalError, flush_failed)"
proof -
  have "fill 2 store_down = Inr (flush_failed\<lparr>flushes := flushes store_down\<rparr>)"
    apply (subst fill.simps)
    apply (simp add: queue_get_def store_down_def)
    apply (subst fill.simps)
    apply (simp add: queue_get_def)
    apply (subst fill.simps)
    apply (simp add: flush_failed_def)
    done
  then show ?thesis
    by (simp add: try_body_def db_insert_batch_def store_down_def flush_failed_def)
qed

lemma writer_is_set_flush_failed:
  "writer_is_set flush_failed = Inr (False, flush_failed\<lparr>cancel_after := 0\<rparr>)"
  by (simp add: writer_is_set_def is_set_def flush_failed_def)

text \<open>
  C8, amended. Inside the loop, whatever \<open>get\<close> or \<open>insert_batch\<close> raises in the \<open>try\<close> is
  caught: if the handler's poll of the flag is answered, the iteration ends normally with
  the batch, the dequeued candidates and the table as they were at the failure, and the
  error is logged exactly when that poll sees the flag unset. While the manager answers
  every \<open>is_set\<close> and \<open>empty\<close>, no failure of \<open>get\<close> or \<open>insert_batch\<close> ends the loop: with
  the flag set after finitely many polls and the queue empty at last, the loop ends by its
  test, cancellation set, at the first answer of \<open>empty\<close> that the queue is empty. And the
  loop does try again: when the first \<open>j\<close> calls of \<open>get\<close>
  raise, the queue then delivers a batch, the first \<open>k\<close> flushes raise and the next one
  commits, with cancellation coming only then, all \<open>j + k\<close> failures are logged in order
  and the batch is in the table when the writer finishes.
\<close>

theorem writer_loop_survives_failures:
  "(try_body bs w = Inl (e, w1) \<and> writer_is_set w1 = Inr (stop, w2) \<longrightarrow>
      (\<exists>w3. iteration bs w = Inr w3
          \<and> errors w3 = (if stop then errors w else errors w @ [e])
          \<and> batch w3 = batch w1 \<and> dequeued w3 = dequeued w1 \<and> db w3 = db w1))
   \<and> (manager v = sconst None \<and> queue_empty v = drained @- sconst True
        \<and> cancel_after v + length drained < n \<longrightarrow>
      (\<exists>v1. while_running bs n v = Some (Finished v1) \<and> cancel_after v1 = 0
          \<and> queue_empty v1 = stl (sdrop_while Not (queue_empty v))))
   \<and> (0 < bs \<and> length its = bs \<longrightarrow>
      (\<exists>u. writer_process bs (j + k + 2 + fuel) (2 * (j + k) + 1) (sconst None) (True ## es)
             (replicate j (GetRaises e1) @- (map Item its @- g))
             (replicate k (FlushRaises e2) @- (Commits clock ## f)) t
           = Some (Finished u)
         \<and> errors u = replicate j e1 @ replicate k e2
         \<and> fst ` set (db u) = fst ` set t \<union> set its
         \<and> dequeued u = its \<and> batch u = [] \<and> infos u = [bs]))"
proof (intro conjI impI)
  assume "try_body bs w = Inl (e, w1) \<and> writer_is_set w1 = Inr (stop, w2)"
  then have "try_body bs w = Inl (e, w1)" and "writer_is_set w1 = Inr (stop, w2)"
    by simp_all
  then show "\<exists>w3. iteration bs w = Inr w3
          \<and> errors w3 = (if stop then errors w else errors w @ [e])
          \<and> batch w3 = batch w1 \<and> dequeued w3 = dequeued w1 \<and> db w3 = db w1"
    by (rule iteration_failure)
next
  assume "manager v = sconst None \<and> queue_empty v = drained @- sconst True
        \<and> cancel_after v + length drained < n"
  then have "manager v = always None" and "queue_empty v = drained @- always True"
    and "cancel_after v + length drained < n"
    by (simp_all add: always_def)
  then show "\<exists>v1. while_running bs n v = Some (Finished v1) \<and> cancel_after v1 = 0
          \<and> queue_empty v1 = stl (sdrop_while Not (queue_empty v))"
    by (rule while_running_exits)
next
  assume "0 < bs \<and> length its = bs"
  then have "0 < bs" and "length its = bs" by simp_all
  then show "\<exists>u. writer_process bs (j + k + 2 + fuel) (2 * (j + k) + 1) (sconst None)
             (True ## es) (replicate j (GetRaises e1) @- (map Item its @- g))
             (replicate k (FlushRaises e2) @- (Commits clock ## f)) t
           = Some (Finished u)
         \<and> errors u = replicate j e1 @ replicate k e2
         \<and> fst ` set (db u) = fst ` set t \<union> set its
         \<and> dequeued u = its \<and> batch u = [] \<and> infos u = [bs]"
    by (rule writer_retries_until_commit)
qed

theorem writer_loop_survives_failures_witness:
  "try_body 2 store_down = Inl (StoreError OperationalError, flush_failed)
   \<and> writer_is_set flush_failed = Inr (False, flush_failed\<lparr>cancel_after := 0\<rparr>)
   \<and> (\<exists>w3. iteration 2 store_down = Inr w3
          \<and> errors w3 = [StoreError OperationalError]
          \<and> batch w3 = [''c@T1!'', ''d0G7#''] \<and> dequeued w3 = [''c@T1!'', ''d0G7#'']
          \<and> db w3 = [])
   \<and> manager store_down = sconst None \<and> queue_empty store_down = [] @- sconst True
   \<and> cancel_after store_down + length ([] :: bool list) < 2
   \<and> (\<exists>v1. while_running 2 2 store_down = Some (Finished v1) \<and> cancel_after v1 = 0
          \<and> queue_empty v1 = stl (sdrop_while Not (queue_empty store_down)))
   \<and> (0 :: nat) < 2 \<and> length [''c@T1!'', ''d0G7#''] = 2
   \<and> (\<exists>u. writer_process 2 4 5 (sconst None) (True ## sconst True)
             (GetRaises Empty ## Item ''c@T1!'' ## Item ''d0G7#'' ## sconst (GetRaises Empty))
             (FlushRaises (StoreError OperationalError) ## Commits (\<lambda>i. 7)
                ## sconst (Commits (\<lambda>i. 7))) []
           = Some (Finished u)
         \<and> errors u = [Empty, StoreError OperationalError]
         \<and> fst ` set (db u) = {''c@T1!'', ''d0G7#''}
         \<and> dequeued u = [''c@T1!'', ''d0G7#''] \<and> batch u = [] \<and> infos u = [2])"
proof -
  note T = writer_loop_survives_failures
    [where bs = 2 and w = store_down and e = "StoreError OperationalError"
       and ?w1.0 = flush_failed and stop = False and ?w2.0 = "flush_failed\<lparr>cancel_after := 0\<rparr>"
       and v = store_down and drained = "[]" and n = 2
       and its = "[''c@T1!'', ''d0G7#'']" and j = 1 and k = 1 and fuel = 0
       and es = "sconst True" and ?e1.0 = Empty and g = "sconst (GetRaises Empty)"
       and ?e2.0 = "StoreError OperationalError" and clock = "\<lambda>i. 7"
       and f = "sconst (Commits (\<lambda>i. 7))" and t = "[]"]
  have a1: "try_body 2 store_down = Inl (StoreError OperationalError, flush_failed)"
    by (rule try_body_store_down)
  have a2: "writer_is_set flush_failed = Inr (False, flush_failed\<lparr>cancel_after := 0\<rparr>)"
    by (rule writer_is_set_flush_failed)
  have b1: "manager store_down = sconst None" by (simp add: store_down_def)
  have b2: "queue_empty store_down = [] @- sconst True" by (simp add: store_down_def)
  have b3: "cancel_after store_down + length ([] :: bool list) < 2"
    by (simp add: store_down_def)
  have d1: "(0 :: nat) < 2" by simp
  have d2: "length [''c@T1!'', ''d0G7#''] = 2" by simp
  have n: "(1 :: nat) + 1 + 2 + 0 = 4" "(2 :: nat) * (1 + 1) + 1 = 5" by simp_all
  have c1: "\<exists>w3. iteration 2 store_down = Inr w3
          \<and> errors w3 = [StoreError OperationalError]
          \<and> batch w3 = [''c@T1!'', ''d0G7#''] \<and> dequeued w3 = [''c@T1!'', ''d0G7#'']
          \<and> db w3 = []"
    using T [THEN conjunct1, rule_format, OF conjI [OF a1 a2]]
    by (simp add: store_down_def flush_failed_def)
  note c2 = T [THEN conjunct2, THEN conjunct1, rule_format, OF conjI [OF b1 conjI [OF b2 b3]]]
  have c3: "\<exists>u. writer_process 2 4 5 (sconst None) (True ## sconst True)
             (GetRaises Empty ## Item ''c@T1!'' ## Item ''d0G7#'' ## sconst (GetRaises Empty))
             (FlushRaises (StoreError OperationalError) ## Commits (\<lambda>i. 7)
                ## sconst (Commits (\<lambda>i. 7))) []
           = Some (Finished u)
         \<and> errors u = [Empty, StoreError OperationalError]
         \<and> fst ` set (db u) = {''c@T1!'', ''d0G7#''}
         \<and> dequeued u = [''c@T1!'', ''d0G7#''] \<and> batch u = [] \<and> infos u = [2]"
    using T [THEN conjunct2, THEN conjunct2, rule_format, OF conjI [OF d1 d2], unfolded n]
    by simp
  from a1 a2 c1 b1 b2 b3 c2 d1 d2 c3 show ?thesis by - (intro conjI; assumption)
qed

end
